theory Spec2Isabelle
  imports Main "HOL-Library.Word"
begin

section \<open>Bytes, hexadecimal digests and the random generator\<close>

text \<open>
  A \<open>Uint8Array\<close> is a list of 8-bit words. The platform's random generator
  (\<open>crypto.getRandomValues\<close>) is modelled as a stream of bytes that every call consumes
  from the front; the rest of the stream is handed back to the caller.
\<close>

type_synonym byte = "8 word"

type_synonym rng = "nat \<Rightarrow> byte"

definition getRandomValues :: "nat \<Rightarrow> rng \<Rightarrow> byte list \<times> rng" where
  "getRandomValues n r = (map r [0..<n], (\<lambda>i. r (i + n)))"

text \<open>
  \<open>b.toString(16).padStart(2, "0")\<close> and its join over the array; the expression is
  written out three times in the source (\<open>bytesToHex\<close> and both entropy handlers).
\<close>

definition hex_digit :: "nat \<Rightarrow> char" where
  "hex_digit d = ''0123456789abcdef'' ! d"

definition toString16 :: "byte \<Rightarrow> string" where
  "toString16 b =
     (if unat b < 16 then [hex_digit (unat b)]
      else [hex_digit (unat b div 16), hex_digit (unat b mod 16)])"

definition padStart :: "nat \<Rightarrow> char \<Rightarrow> string \<Rightarrow> string" where
  "padStart n c s = replicate (n - length s) c @ s"

definition bytesToHex :: "byte list \<Rightarrow> string" where
  "bytesToHex bytes = concat (map (\<lambda>b. padStart 2 (CHR ''0'') (toString16 b)) bytes)"

section \<open>Dates as ISO-8601 strings\<close>

text \<open>
  The handlers store and compare instants as the strings that
  \<open>Date.prototype.toISOString\<close> makes of them. The functions below are those of the
  language standard: a time value is a number of milliseconds since the epoch,
  \<open>YearFromTime t\<close> is the largest year whose first day is not after \<open>t\<close>, and the
  string is \<open>YYYY-MM-DDTHH:mm:ss.sssZ\<close>, with a sign and six digits for a year outside
  0 to 9999.
\<close>

definition msPerDay :: int where
  "msPerDay = 86400000"

definition Day :: "int \<Rightarrow> int" where
  "Day t = t div msPerDay"

definition DaysInYear :: "int \<Rightarrow> int" where
  "DaysInYear y =
     (if y mod 4 \<noteq> 0 then 365 else if y mod 100 \<noteq> 0 then 366
      else if y mod 400 \<noteq> 0 then 365 else 366)"

definition DayFromYear :: "int \<Rightarrow> int" where
  "DayFromYear y =
     365 * (y - 1970) + (y - 1969) div 4 - (y - 1901) div 100 + (y - 1601) div 400"

lemma DayFromYear_step:
  "DayFromYear y + 364 \<le> DayFromYear (y + 1) \<and> DayFromYear (y + 1) \<le> DayFromYear y + 367"
proof -
  have up: "a div n \<le> (a + 1) div n" if "0 < n" for a n :: int
    using that by (simp add: zdiv_mono1)
  have down: "(a + 1) div n \<le> a div n + 1" if "0 < n" for a n :: int
  proof -
    have "(a + 1) div n \<le> (a + n) div n"
      using that by (intro zdiv_mono1) simp_all
    also have "(a + n) div n = a div n + 1"
      using that div_add_self2 [of n a] by auto
    finally show ?thesis .
  qed
  have lin: "365 * (y - 1970) + a - b + c + 364 \<le> 365 * (y + 1 - 1970) + a' - b' + c'
      \<and> 365 * (y + 1 - 1970) + a' - b' + c' \<le> 365 * (y - 1970) + a - b + c + 367"
    if "a \<le> a'" "a' \<le> a + 1" "b \<le> b'" "b' \<le> b + 1" "c \<le> c'" "c' \<le> c + 1"
    for a a' b b' c c' :: int
    using that by auto
  have s: "y + 1 - 1969 = (y - 1969) + 1" "y + 1 - 1901 = (y - 1901) + 1"
    "y + 1 - 1601 = (y - 1601) + 1"
    by simp_all
  show ?thesis
    unfolding DayFromYear_def
    by (rule lin) (simp_all only: s up down zero_less_numeral)
qed

text \<open>
  The year of a day number, found by counting years up from 1970 or down from 1969.
\<close>

function year_up :: "int \<Rightarrow> int \<Rightarrow> int" where
  "year_up n y = (if DayFromYear (y + 1) \<le> n then year_up n (y + 1) else y)"
  by pat_completeness auto
termination
proof (relation "measure (\<lambda>(n, y). nat (n + 1 - DayFromYear (y + 1)))")
  show "wf (measure (\<lambda>(n, y). nat (n + 1 - DayFromYear (y + 1))))"
    by simp
next
  fix n y :: int
  assume "DayFromYear (y + 1) \<le> n"
  then show "((n, y + 1), (n, y)) \<in> measure (\<lambda>(n, y). nat (n + 1 - DayFromYear (y + 1)))"
    using DayFromYear_step [of "y + 1"] by simp
qed

function year_down :: "int \<Rightarrow> int \<Rightarrow> int" where
  "year_down n y = (if n < DayFromYear y then year_down n (y - 1) else y)"
  by pat_completeness auto
termination
proof (relation "measure (\<lambda>(n, y). nat (DayFromYear y - n))")
  show "wf (measure (\<lambda>(n, y). nat (DayFromYear y - n)))"
    by simp
next
  fix n y :: int
  assume "n < DayFromYear y"
  then show "((n, y - 1), (n, y)) \<in> measure (\<lambda>(n, y). nat (DayFromYear y - n))"
    using DayFromYear_step [of "y - 1"] by simp
qed

declare year_up.simps [simp del] year_down.simps [simp del]

definition YearFromTime :: "int \<Rightarrow> int" where
  "YearFromTime t = (if 0 \<le> Day t then year_up (Day t) 1970 else year_down (Day t) 1969)"

definition InLeapYear :: "int \<Rightarrow> int" where
  "InLeapYear t = (if DaysInYear (YearFromTime t) = 366 then 1 else 0)"

definition DayWithinYear :: "int \<Rightarrow> int" where
  "DayWithinYear t = Day t - DayFromYear (YearFromTime t)"

definition month_of :: "int \<Rightarrow> int \<Rightarrow> int" where
  "month_of leap d =
     (if d < 31 then 0 else if d < 59 + leap then 1 else if d < 90 + leap then 2
      else if d < 120 + leap then 3 else if d < 151 + leap then 4
      else if d < 181 + leap then 5 else if d < 212 + leap then 6
      else if d < 243 + leap then 7 else if d < 273 + leap then 8
      else if d < 304 + leap then 9 else if d < 334 + leap then 10 else 11)"

definition date_of :: "int \<Rightarrow> int \<Rightarrow> int" where
  "date_of leap d =
     (if d < 31 then d + 1 else if d < 59 + leap then d - 30
      else if d < 90 + leap then d - 58 - leap
      else if d < 120 + leap then d - 89 - leap else if d < 151 + leap then d - 119 - leap
      else if d < 181 + leap then d - 150 - leap else if d < 212 + leap then d - 180 - leap
      else if d < 243 + leap then d - 211 - leap else if d < 273 + leap then d - 242 - leap
      else if d < 304 + leap then d - 272 - leap else if d < 334 + leap then d - 303 - leap
      else d - 333 - leap)"

definition MonthFromTime :: "int \<Rightarrow> int" where
  "MonthFromTime t = month_of (InLeapYear t) (DayWithinYear t)"

definition DateFromTime :: "int \<Rightarrow> int" where
  "DateFromTime t = date_of (InLeapYear t) (DayWithinYear t)"

definition HourFromTime :: "int \<Rightarrow> int" where
  "HourFromTime t = (t div 3600000) mod 24"

definition MinFromTime :: "int \<Rightarrow> int" where
  "MinFromTime t = (t div 60000) mod 60"

definition SecFromTime :: "int \<Rightarrow> int" where
  "SecFromTime t = (t div 1000) mod 60"

definition msFromTime :: "int \<Rightarrow> int" where
  "msFromTime t = t mod 1000"

text \<open>The last \<open>k\<close> decimal digits of a number: the number itself, padded with zeros, when it has no more than \<open>k\<close>.\<close>

fun digits :: "nat \<Rightarrow> nat \<Rightarrow> string" where
  "digits 0 n = []"
| "digits (Suc k) n = digits k (n div 10) @ [char_of (48 + n mod 10)]"

definition year_string :: "int \<Rightarrow> string" where
  "year_string y =
     (if 0 \<le> y \<and> y \<le> 9999 then digits 4 (nat y)
      else (if 0 \<le> y then ''+'' else ''-'') @ digits 6 (nat \<bar>y\<bar>))"

definition date_string :: "int \<Rightarrow> string" where
  "date_string t =
     year_string (YearFromTime t) @ ''-'' @ digits 2 (nat (MonthFromTime t + 1)) @ ''-''
     @ digits 2 (nat (DateFromTime t))"

definition time_string :: "int \<Rightarrow> string" where
  "time_string t =
     digits 2 (nat (HourFromTime t)) @ '':'' @ digits 2 (nat (MinFromTime t)) @ '':''
     @ digits 2 (nat (SecFromTime t)) @ ''.'' @ digits 3 (nat (msFromTime t))"

definition toISOString :: "int \<Rightarrow> string" where
  "toISOString t = date_string t @ ''T'' @ time_string t @ ''Z''"

text \<open>
  The instants whose year has four digits: from the first millisecond of year 0 to the last
  of year 9999.
\<close>

definition four_digit_year :: "int \<Rightarrow> bool" where
  "four_digit_year t \<longleftrightarrow> - 62167219200000 \<le> t \<and> t \<le> 253402300799999"

text \<open>
  The document store orders strings by their code units, a proper prefix before the
  longer string; \<open>$gte\<close> is the negation of \<open>str_less\<close>.
\<close>

fun str_less :: "string \<Rightarrow> string \<Rightarrow> bool" where
  "str_less [] [] = False"
| "str_less [] (y # ys) = True"
| "str_less (x # xs) [] = False"
| "str_less (x # xs) (y # ys) =
     ((of_char x :: nat) < of_char y \<or> (x = y \<and> str_less xs ys))"

section \<open>The entropy endpoint backed by the document store\<close>

text \<open>
  The \<open>entropy_log\<close> collection is the list of its documents in insertion order; the
  handlers only ever insert one document or set the \<open>used\<close> flag of one, so a
  document's position in the list stands for its \<open>_id\<close>. \<open>created_at\<close> is the ISO-8601
  string that \<open>toISOString\<close> made of the instant of insertion, and the store compares
  it as a string.
\<close>

datatype EntropySource = Hardware | Software

record entropy_doc =
  doc_entropy_hex :: string
  doc_source :: EntropySource
  doc_used :: bool
  doc_created_at :: string

type_synonym entropy_log = "entropy_doc list"

definition ENTROPY_BYTES :: nat where
  "ENTROPY_BYTES = 32"

definition ENTROPY_MAX_AGE_MS :: int where
  "ENTROPY_MAX_AGE_MS = 30000"

datatype api_error =
    InvalidEntropySize nat
  | ReplayedEntropy
  | DegenerateEntropy
  | BackendError
  | InvalidTimeValue
  | MethodNotAllowed

datatype response_body =
    NoBody
  | ErrorBody api_error
  | Accepted nat
  | Entropy EntropySource string string

datatype response = Response nat response_body

datatype request = OPTIONS | POST "byte list" | GET | OtherMethod

text \<open>
  What a request finds outside the collection: the clock and whether \<open>getDb()\<close> returns
  a connection or throws. The issuance handler reads the clock twice, once for the cutoff
  (\<open>Date.now()\<close>) and, after the query, once more for the timestamp of a Software answer
  (\<open>new Date()\<close>); \<open>now\<close> is the first reading of a request and \<open>now_reply\<close> the second.
  Both are time values, in milliseconds since the epoch.
\<close>

record env =
  now :: int
  now_reply :: int
  db_up :: bool

text \<open>
  \<open>new Date(v)\<close> keeps a time value of at most \<open>8.64e15\<close> in absolute value and is an
  invalid date otherwise, on which \<open>toISOString\<close> throws a \<open>RangeError\<close>.
\<close>

definition valid_time :: "int \<Rightarrow> bool" where
  "valid_time t \<longleftrightarrow> \<bar>t\<bar> \<le> 8640000000000000"

text \<open>\<open>col.findOne({ entropy_hex: entropyHex })\<close>\<close>

definition findOne_hex :: "string \<Rightarrow> entropy_log \<Rightarrow> entropy_doc option" where
  "findOne_hex h log = find (\<lambda>d. doc_entropy_hex d = h) log"

text \<open>
  \<open>col.findOne({ used: false, source: "hardware", created_at: { $gte: cutoff } },
  { sort: { created_at: -1 } })\<close>: the position of a matching document with the latest
  \<open>created_at\<close> (the earliest inserted one among equals). Both \<open>$gte\<close> and the sort compare
  the strings.
\<close>

definition matches_fresh :: "string \<Rightarrow> entropy_doc \<Rightarrow> bool" where
  "matches_fresh cutoff d \<longleftrightarrow>
     doc_used d = False \<and> doc_source d = Hardware \<and> \<not> str_less (doc_created_at d) cutoff"

definition newer :: "entropy_log \<Rightarrow> nat \<Rightarrow> nat \<Rightarrow> nat" where
  "newer log j best =
     (if str_less (doc_created_at (log ! best)) (doc_created_at (log ! j)) then j else best)"

definition findOne_fresh :: "string \<Rightarrow> entropy_log \<Rightarrow> nat option" where
  "findOne_fresh cutoff log =
     (case filter (\<lambda>i. matches_fresh cutoff (log ! i)) [0..<length log] of
        [] \<Rightarrow> None
      | i # rest \<Rightarrow> Some (fold (newer log) rest i))"

definition handle_post :: "env \<Rightarrow> byte list \<Rightarrow> entropy_log \<Rightarrow> response \<times> entropy_log" where
  "handle_post e bytes log =
     (if length bytes \<noteq> ENTROPY_BYTES
      then (Response 400 (ErrorBody (InvalidEntropySize (length bytes))), log)
      else let entropyHex = bytesToHex bytes in
        if \<not> db_up e then (Response 500 (ErrorBody BackendError), log)
        else (case findOne_hex entropyHex log of
            Some existing \<Rightarrow> (Response 409 (ErrorBody ReplayedEntropy), log)
          | None \<Rightarrow>
              (Response 200 (Accepted ENTROPY_BYTES),
               log @ [\<lparr>doc_entropy_hex = entropyHex, doc_source = Hardware,
                        doc_used = False, doc_created_at = toISOString (now e)\<rparr>])))"

definition handle_get :: "env \<Rightarrow> rng \<Rightarrow> entropy_log \<Rightarrow> response \<times> entropy_log \<times> rng" where
  "handle_get e r log =
     (if \<not> db_up e then (Response 500 (ErrorBody BackendError), log, r)
      else if \<not> valid_time (now e - ENTROPY_MAX_AGE_MS)
      then (Response 500 (ErrorBody InvalidTimeValue), log, r)
      else let cutoff = toISOString (now e - ENTROPY_MAX_AGE_MS) in
        (case findOne_fresh cutoff log of
            Some i \<Rightarrow>
              (let fresh = log ! i in
               (Response 200 (Entropy Hardware (doc_entropy_hex fresh) (doc_created_at fresh)),
                log[i := fresh\<lparr>doc_used := True\<rparr>], r))
          | None \<Rightarrow>
              (let (softBytes, r') = getRandomValues ENTROPY_BYTES r in
               (Response 200
                  (Entropy Software (bytesToHex softBytes) (toISOString (now_reply e))),
                log, r'))))"

definition serve :: "env \<Rightarrow> request \<Rightarrow> entropy_log \<times> rng \<Rightarrow> response \<times> entropy_log \<times> rng" where
  "serve e req st =
     (case req of
        OPTIONS \<Rightarrow> (Response 200 NoBody, st)
      | POST bytes \<Rightarrow> (let (resp, log') = handle_post e bytes (fst st) in (resp, log', snd st))
      | GET \<Rightarrow> handle_get e (snd st) (fst st)
      | OtherMethod \<Rightarrow> (Response 405 (ErrorBody MethodNotAllowed), st))"

text \<open>A sequence of requests, served one after the other; the responses in order.\<close>

fun serve_all :: "(env \<times> request) list \<Rightarrow> entropy_log \<times> rng \<Rightarrow> response list \<times> entropy_log \<times> rng" where
  "serve_all [] st = ([], st)"
| "serve_all ((e, req) # rest) st =
     (let (resp, st') = serve e req st;
          (resps, st'') = serve_all rest st'
      in (resp # resps, st''))"

text \<open>The digests that a response, or a run of responses, hands out as Hardware samples.\<close>

fun issued_hardware :: "response \<Rightarrow> string list" where
  "issued_hardware (Response s (Entropy Hardware h t)) = [h]"
| "issued_hardware resp = []"

text \<open>No document with digest \<open>h\<close> has its \<open>used\<close> flag set.\<close>

definition no_used_copy :: "entropy_log \<Rightarrow> string \<Rightarrow> bool" where
  "no_used_copy log h \<longleftrightarrow> (\<forall>d \<in> set log. doc_entropy_hex d = h \<longrightarrow> \<not> doc_used d)"

section \<open>The in-memory variant of the entropy endpoint\<close>

text \<open>
  The second \<open>serve\<close> of the source keeps the newest sample in the process-wide slot
  \<open>latestEntropy\<close> and logs a SHA-256 hash of every accepted payload. Its ingestion path
  (\<open>POST .../entropy\<close>) is modelled up to the write of the log row; the hash function
  is the platform's and is a parameter.
\<close>

record latest_entropy =
  le_data :: "byte list"
  le_timestamp :: int

record mem_state =
  latestEntropy :: "latest_entropy option"
  entropy_hashes :: "string list"

datatype mem_response = MemError nat api_error | MemOk string

definition mem_post_entropy ::
  "(byte list \<Rightarrow> byte list) \<Rightarrow> int \<Rightarrow> byte list \<Rightarrow> mem_state \<Rightarrow> mem_response \<times> mem_state" where
  "mem_post_entropy sha256 t entropy st =
     (if length entropy \<noteq> 32 then (MemError 400 (InvalidEntropySize (length entropy)), st)
      else let allZeros = list_all (\<lambda>b. b = 0) entropy;
               allOnes = list_all (\<lambda>b. b = 0xFF) entropy in
        if allZeros \<or> allOnes then (MemError 400 DegenerateEntropy, st)
        else let hashHex = bytesToHex (sha256 entropy) in
          (MemOk hashHex,
           \<lparr>latestEntropy = Some \<lparr>le_data = entropy, le_timestamp = t\<rparr>,
            entropy_hashes = entropy_hashes st @ [hashHex]\<rparr>))"

section \<open>The client entropy cache\<close>

text \<open>
  \<open>EntropyResult\<close> is what the issuance endpoint answers; \<open>EntropyStatus\<close> adds the
  optional \<open>age_ms\<close>. A timestamp is held as what \<open>new Date(timestamp).getTime()\<close>
  makes of the string: the instant in milliseconds, or nothing where the string does not
  parse (the source then computes with \<open>NaN\<close>, and every comparison with it is false).
\<close>

record EntropyResult =
  source :: EntropySource
  entropy_hex :: string
  timestamp :: "int option"

record EntropyStatus = EntropyResult +
  age_ms :: "int option"

definition CACHE_TTL_MS :: int where
  "CACHE_TTL_MS = 25000"

text \<open>
  What a call of \<open>fetchEntropy\<close> meets: \<open>Date.now()\<close> on entry, the outcome of the
  request to the issuance endpoint should it be made (\<open>None\<close> when \<open>fetch\<close> throws, the
  status is not ok or the body is not JSON), and the clock read in the \<open>catch\<close> block.
\<close>

record client_env =
  date_now :: int
  live_response :: "EntropyResult option"
  date_catch :: int

text \<open>
  What the call leaves behind: the value returned, the module variable
  \<open>cachedEntropy\<close>, whether the endpoint was called, and the random generator.
\<close>

record fetch_outcome =
  returned :: EntropyStatus
  cache_after :: "EntropyStatus option"
  live_call :: bool
  rng_after :: rng

text \<open>The first \<open>if\<close> of \<open>fetchEntropy\<close>: the cached value with its age, when it is young enough.\<close>

definition cache_hit :: "int \<Rightarrow> EntropyStatus option \<Rightarrow> EntropyStatus option" where
  "cache_hit t cachedEntropy =
     (case cachedEntropy of
        None \<Rightarrow> None
      | Some c \<Rightarrow>
          (case timestamp c of
             None \<Rightarrow> None
           | Some ts \<Rightarrow>
               (let age = t - ts in
                if age < CACHE_TTL_MS then Some (c\<lparr>age_ms := Some age\<rparr>) else None)))"

definition fetchEntropy :: "client_env \<Rightarrow> rng \<Rightarrow> EntropyStatus option \<Rightarrow> fetch_outcome" where
  "fetchEntropy e r cachedEntropy =
     (case cache_hit (date_now e) cachedEntropy of
        Some hit \<Rightarrow>
          \<lparr>returned = hit, cache_after = cachedEntropy, live_call = False, rng_after = r\<rparr>
      | None \<Rightarrow>
          (case live_response e of
             Some data \<Rightarrow>
               (let fresh = \<lparr>source = source data, entropy_hex = entropy_hex data,
                             timestamp = timestamp data, age_ms = None\<rparr>
                in \<lparr>returned = fresh\<lparr>age_ms := Some 0\<rparr>, cache_after = Some fresh,
                    live_call = True, rng_after = r\<rparr>)
           | None \<Rightarrow>
               (let (bytes, r') = getRandomValues 32 r;
                    fallback = \<lparr>source = Software, entropy_hex = bytesToHex bytes,
                                timestamp = Some (date_catch e), age_ms = Some 0\<rparr>
                in \<lparr>returned = fallback, cache_after = Some fallback,
                    live_call = True, rng_after = r'\<rparr>)))"

definition clearEntropyCache :: "EntropyStatus option \<Rightarrow> EntropyStatus option" where
  "clearEntropyCache cachedEntropy = None"

section \<open>Transport encoding\<close>

text \<open>
  \<open>btoa\<close> and \<open>atob\<close> are the platform's Base64 functions on binary strings (one
  character per byte). \<open>btoa\<close> is RFC 4648 encoding with padding; \<open>atob\<close> is the
  forgiving decoder of the HTML standard: it drops ASCII whitespace, takes off one or
  two trailing \<open>=\<close> when the length is a multiple of four, and throws on a length of
  1 modulo 4 or on a character outside the alphabet.
\<close>

datatype crypto_error = InvalidCharacterError | OperationError | RangeError

definition b64_alphabet :: string where
  "b64_alphabet = ''ABCDEFGHIJKLMNOPQRSTUVWXYZabcdefghijklmnopqrstuvwxyz0123456789+/''"

definition b64_char :: "nat \<Rightarrow> char" where
  "b64_char i = b64_alphabet ! i"

fun index_of :: "'a \<Rightarrow> 'a list \<Rightarrow> nat option" where
  "index_of x [] = None"
| "index_of x (y # ys) = (if x = y then Some 0 else map_option Suc (index_of x ys))"

definition b64_index :: "char \<Rightarrow> nat option" where
  "b64_index c = index_of c b64_alphabet"

fun btoa :: "string \<Rightarrow> string" where
  "btoa [] = []"
| "btoa [a] =
     (let x = of_char a in
      [b64_char (x div 4), b64_char (x mod 4 * 16), CHR ''='', CHR ''=''])"
| "btoa [a, b] =
     (let x = of_char a; y = of_char b in
      [b64_char (x div 4), b64_char (x mod 4 * 16 + y div 16), b64_char (y mod 16 * 4), CHR ''=''])"
| "btoa (a # b # c # rest) =
     (let x = of_char a; y = of_char b; z = of_char c in
      [b64_char (x div 4), b64_char (x mod 4 * 16 + y div 16),
       b64_char (y mod 16 * 4 + z div 64), b64_char (z mod 64)] @ btoa rest)"

definition ascii_whitespace :: "char \<Rightarrow> bool" where
  "ascii_whitespace c \<longleftrightarrow> c \<in> {CHR 0x09, CHR 0x0A, CHR 0x0C, CHR 0x0D, CHR 0x20}"

definition strip_padding :: "string \<Rightarrow> string" where
  "strip_padding d =
     (if length d mod 4 = 0 \<and> d \<noteq> [] \<and> last d = CHR ''=''
      then (if butlast d \<noteq> [] \<and> last (butlast d) = CHR ''='' then butlast (butlast d) else butlast d)
      else d)"

fun decode_sextets :: "nat list \<Rightarrow> nat list" where
  "decode_sextets (a # b # c # d # rest) =
     (let n = ((a * 64 + b) * 64 + c) * 64 + d in
      [n div 65536, n div 256 mod 256, n mod 256] @ decode_sextets rest)"
| "decode_sextets [a, b, c] =
     (let n = ((a * 64 + b) * 64 + c) div 4 in [n div 256, n mod 256])"
| "decode_sextets [a, b] = [(a * 64 + b) div 16]"
| "decode_sextets rest = []"

definition atob :: "string \<Rightarrow> crypto_error + string" where
  "atob data =
     (let d = strip_padding (filter (\<lambda>c. \<not> ascii_whitespace c) data) in
      if length d mod 4 = 1 then Inl InvalidCharacterError
      else (case those (map b64_index d) of
              None \<Rightarrow> Inl InvalidCharacterError
            | Some sextets \<Rightarrow> Inr (map char_of (decode_sextets sextets))))"

text \<open>
  \<open>String.fromCharCode\<close> of a sequence of bytes is the binary string with one character
  for each byte.
\<close>

definition fromCharCode :: "byte list \<Rightarrow> string" where
  "fromCharCode bytes = map (\<lambda>b. char_of (unat b)) bytes"

text \<open>
  \<open>bytesToBase64\<close> spreads the array into one call, \<open>String.fromCharCode(...bytes)\<close>, so
  every byte is an argument of that call. An engine takes only so many arguments in a
  call and throws a \<open>RangeError\<close> beyond; how many depends on the engine and on its stack,
  and is the parameter \<open>max_args\<close>.
\<close>

definition bytesToBase64 :: "nat \<Rightarrow> byte list \<Rightarrow> crypto_error + string" where
  "bytesToBase64 max_args bytes =
     (if max_args < length bytes then Inl RangeError else Inr (btoa (fromCharCode bytes)))"

definition base64ToBytes :: "string \<Rightarrow> crypto_error + byte list" where
  "base64ToBytes b64 =
     (case atob b64 of
        Inl err \<Rightarrow> Inl err
      | Inr s \<Rightarrow> Inr (map (\<lambda>c. of_nat (of_char c)) s))"

text \<open>
  The second encryption module of the source has the same pair under other names.
  \<open>bufferToBase64\<close> appends the characters to the binary string one by one in a loop,
  and \<open>base64ToBuffer\<close> reads the decoded string by index.
\<close>

definition bufferToBase64 :: "byte list \<Rightarrow> string" where
  "bufferToBase64 buffer = btoa (foldl (\<lambda>binary b. binary @ fromCharCode [b]) [] buffer)"

definition base64ToBuffer :: "string \<Rightarrow> crypto_error + byte list" where
  "base64ToBuffer base64 =
     (case atob base64 of
        Inl err \<Rightarrow> Inl err
      | Inr binary \<Rightarrow> Inr (map (\<lambda>i. of_nat (of_char (binary ! i))) [0..<length binary]))"

text \<open>
  The 6-bit groups that \<open>btoa\<close> writes, and the padding it appends: the two halves of
  its output, named for the proofs.
\<close>

fun sextets :: "string \<Rightarrow> nat list" where
  "sextets [] = []"
| "sextets [a] = (let x = of_char a in [x div 4, x mod 4 * 16])"
| "sextets [a, b] =
     (let x = of_char a; y = of_char b in [x div 4, x mod 4 * 16 + y div 16, y mod 16 * 4])"
| "sextets (a # b # c # rest) =
     (let x = of_char a; y = of_char b; z = of_char c in
      [x div 4, x mod 4 * 16 + y div 16, y mod 16 * 4 + z div 64, z mod 64] @ sextets rest)"

definition padding :: "string \<Rightarrow> string" where
  "padding s = replicate ((3 - length s mod 3) mod 3) (CHR ''='')"

section \<open>Browser-side key derivation and encryption\<close>

subsection \<open>Hexadecimal entropy\<close>

text \<open>
  \<open>parseInt(s, 16)\<close>: leading white space is skipped, a sign is read, a \<open>0x\<close> prefix
  is dropped, and the longest run of hexadecimal digits is the value; without a digit
  the result is \<open>NaN\<close> (\<open>None\<close>). Strings here are over 8-bit characters, so of the
  white space of the language only the characters below U+0100 occur.
\<close>

definition js_whitespace :: "char \<Rightarrow> bool" where
  "js_whitespace c \<longleftrightarrow>
     c \<in> {CHR 0x09, CHR 0x0A, CHR 0x0B, CHR 0x0C, CHR 0x0D, CHR 0x20, CHR 0xA0}"

definition is_hex_digit :: "char \<Rightarrow> bool" where
  "is_hex_digit c \<longleftrightarrow>
     (let n = (of_char c :: nat) in
      (48 \<le> n \<and> n \<le> 57) \<or> (97 \<le> n \<and> n \<le> 102) \<or> (65 \<le> n \<and> n \<le> 70))"

definition hex_value :: "char \<Rightarrow> nat" where
  "hex_value c =
     (let n = (of_char c :: nat) in
      if n \<le> 57 then n - 48 else if 97 \<le> n then n - 87 else n - 55)"

definition parseInt16 :: "string \<Rightarrow> int option" where
  "parseInt16 s =
     (let s1 = dropWhile js_whitespace s;
          sign = (if take 1 s1 = ''-'' then - 1 else 1);
          s2 = (if take 1 s1 = ''+'' \<or> take 1 s1 = ''-'' then drop 1 s1 else s1);
          s3 = (if take 2 s2 = ''0x'' \<or> take 2 s2 = ''0X'' then drop 2 s2 else s2);
          z = takeWhile is_hex_digit s3
      in if z = [] then None
         else Some (sign * int (foldl (\<lambda>acc c. 16 * acc + hex_value c) 0 z)))"

text \<open>Storing a number into a \<open>Uint8Array\<close> element: \<open>NaN\<close> becomes 0, integers wrap.\<close>

definition toUint8 :: "int option \<Rightarrow> byte" where
  "toUint8 v = (case v of None \<Rightarrow> 0 | Some n \<Rightarrow> of_int n)"

text \<open>
  \<open>hexToBytes\<close>: the buffer has \<open>hex.length / 2\<close> elements, rounded down; the loop
  writes \<open>bytes[i / 2]\<close> for every even \<open>i\<close>, and a write past the end of the array (the
  last one, when the length is odd) is ignored.
\<close>

definition hexToBytes :: "string \<Rightarrow> byte list" where
  "hexToBytes hex =
     map (\<lambda>k. toUint8 (parseInt16 (take 2 (drop (2 * k) hex)))) [0..<length hex div 2]"

subsection \<open>The platform's cryptography\<close>

text \<open>
  HKDF and AES-GCM are the browser's (\<open>crypto.subtle\<close>), not code of the repository:
  they are parameters of the model. \<open>hkdf_sha256 ikm salt info\<close> stands for
  \<open>importKey\<close> followed by \<open>deriveKey\<close> with HKDF, SHA-256 and a 256-bit AES-GCM
  target key, which accept input of every length; \<open>aes_gcm_decrypt\<close> gives \<open>None\<close>
  where \<open>decrypt\<close> throws its \<open>OperationError\<close>. The type \<open>'k\<close> is that of the
  non-extractable \<open>CryptoKey\<close>.
\<close>

record 'k webcrypto =
  hkdf_sha256 :: "byte list \<Rightarrow> byte list \<Rightarrow> byte list \<Rightarrow> 'k"
  aes_gcm_encrypt :: "'k \<Rightarrow> byte list \<Rightarrow> byte list \<Rightarrow> byte list"
  aes_gcm_decrypt :: "'k \<Rightarrow> byte list \<Rightarrow> byte list \<Rightarrow> byte list option"

text \<open>An \<open>async\<close> function returns a promise: fulfilled with a result or rejected with an error.\<close>

type_synonym 'a promise = "crypto_error + 'a"

subsection \<open>Text encoding\<close>

text \<open>
  A string of the language is a sequence of 16-bit code units. \<open>TextEncoder.encode\<close>
  first reads it as scalar values, replacing every surrogate that is not part of a pair
  by U+FFFD, and writes each scalar value in UTF-8.
\<close>

type_synonym jsstring = "16 word list"

definition is_lead :: "16 word \<Rightarrow> bool" where
  "is_lead u \<longleftrightarrow> 0xD800 \<le> unat u \<and> unat u \<le> 0xDBFF"

definition is_trail :: "16 word \<Rightarrow> bool" where
  "is_trail u \<longleftrightarrow> 0xDC00 \<le> unat u \<and> unat u \<le> 0xDFFF"

fun to_scalars :: "jsstring \<Rightarrow> nat list" where
  "to_scalars [] = []"
| "to_scalars [u] = (if is_lead u \<or> is_trail u then [0xFFFD] else [unat u])"
| "to_scalars (u # v # rest) =
     (if is_lead u \<and> is_trail v
      then (0x10000 + (unat u - 0xD800) * 0x400 + (unat v - 0xDC00)) # to_scalars rest
      else if is_lead u \<or> is_trail u then 0xFFFD # to_scalars (v # rest)
      else unat u # to_scalars (v # rest))"

definition utf8_bytes :: "nat \<Rightarrow> nat list" where
  "utf8_bytes c =
     (if c < 0x80 then [c]
      else if c < 0x800 then [0xC0 + c div 64, 0x80 + c mod 64]
      else if c < 0x10000 then [0xE0 + c div 4096, 0x80 + c div 64 mod 64, 0x80 + c mod 64]
      else [0xF0 + c div 262144, 0x80 + c div 4096 mod 64, 0x80 + c div 64 mod 64,
            0x80 + c mod 64])"

definition TextEncoder_encode :: "jsstring \<Rightarrow> byte list" where
  "TextEncoder_encode s = map of_nat (concat (map utf8_bytes (to_scalars s)))"

text \<open>
  \<open>new TextDecoder().decode\<close>: the UTF-8 decoder of the Encoding standard, one byte at
  a time over the state (code point, bytes needed, bytes seen, lower and upper
  boundary); a malformed sequence gives U+FFFD, and the byte that broke a sequence is
  read again as the start of the next one. A U+FEFF at the very start of the output is
  dropped (\<open>ignoreBOM\<close> is false by default). The code points are written as code
  units, those beyond U+FFFF as a surrogate pair.
\<close>

record utf8_state =
  code_point :: nat
  bytes_needed :: nat
  bytes_seen :: nat
  lower_boundary :: nat
  upper_boundary :: nat

definition utf8_init :: utf8_state where
  "utf8_init = \<lparr>code_point = 0, bytes_needed = 0, bytes_seen = 0,
                 lower_boundary = 0x80, upper_boundary = 0xBF\<rparr>"

definition utf8_lead :: "nat \<Rightarrow> nat list \<times> utf8_state" where
  "utf8_lead b =
     (if b \<le> 0x7F then ([b], utf8_init)
      else if 0xC2 \<le> b \<and> b \<le> 0xDF
        then ([], utf8_init\<lparr>bytes_needed := 1, code_point := b mod 32\<rparr>)
      else if 0xE0 \<le> b \<and> b \<le> 0xEF
        then ([], utf8_init\<lparr>bytes_needed := 2, code_point := b mod 16,
                lower_boundary := (if b = 0xE0 then 0xA0 else 0x80),
                upper_boundary := (if b = 0xED then 0x9F else 0xBF)\<rparr>)
      else if 0xF0 \<le> b \<and> b \<le> 0xF4
        then ([], utf8_init\<lparr>bytes_needed := 3, code_point := b mod 8,
                lower_boundary := (if b = 0xF0 then 0x90 else 0x80),
                upper_boundary := (if b = 0xF4 then 0x8F else 0xBF)\<rparr>)
      else ([0xFFFD], utf8_init))"

definition utf8_step :: "utf8_state \<Rightarrow> nat \<Rightarrow> nat list \<times> utf8_state" where
  "utf8_step st b =
     (if bytes_needed st = 0 then utf8_lead b
      else if b < lower_boundary st \<or> upper_boundary st < b
        then (0xFFFD # fst (utf8_lead b), snd (utf8_lead b))
      else let cp = code_point st * 64 + b mod 64 in
        if bytes_seen st + 1 \<noteq> bytes_needed st
        then ([], st\<lparr>code_point := cp, bytes_seen := bytes_seen st + 1,
                    lower_boundary := 0x80, upper_boundary := 0xBF\<rparr>)
        else ([cp], utf8_init))"

fun utf8_decode :: "utf8_state \<Rightarrow> nat list \<Rightarrow> nat list" where
  "utf8_decode st [] = (if bytes_needed st \<noteq> 0 then [0xFFFD] else [])"
| "utf8_decode st (b # bs) = fst (utf8_step st b) @ utf8_decode (snd (utf8_step st b)) bs"

definition strip_bom :: "nat list \<Rightarrow> nat list" where
  "strip_bom cps = (if take 1 cps = [0xFEFF] then drop 1 cps else cps)"

definition code_units :: "nat \<Rightarrow> jsstring" where
  "code_units c =
     (if c < 0x10000 then [of_nat c]
      else [of_nat (0xD800 + (c - 0x10000) div 0x400), of_nat (0xDC00 + (c - 0x10000) mod 0x400)])"

definition TextDecoder_decode :: "byte list \<Rightarrow> jsstring" where
  "TextDecoder_decode bytes =
     concat (map code_units (strip_bom (utf8_decode utf8_init (map unat bytes))))"

text \<open>A Unicode scalar value: a code point that is not a surrogate.\<close>

definition scalar :: "nat \<Rightarrow> bool" where
  "scalar c \<longleftrightarrow> c < 0x110000 \<and> (c < 0xD800 \<or> 0xDFFF < c)"

text \<open>\<open>String.prototype.isWellFormed\<close>: no surrogate stands outside a pair.\<close>

fun isWellFormed :: "jsstring \<Rightarrow> bool" where
  "isWellFormed [] = True"
| "isWellFormed [u] = (\<not> is_lead u \<and> \<not> is_trail u)"
| "isWellFormed (u # v # rest) =
     (if is_lead u then is_trail v \<and> isWellFormed rest
      else \<not> is_trail u \<and> isWellFormed (v # rest))"

subsection \<open>Key derivation, messages and files\<close>

text \<open>\<open>new TextEncoder().encode("QRNG-SecureComms-v1")\<close>, an ASCII string.\<close>

definition HKDF_INFO :: "byte list" where
  "HKDF_INFO = map (\<lambda>c. of_nat (of_char c)) ''QRNG-SecureComms-v1''"

definition deriveKey ::
  "'k webcrypto \<Rightarrow> rng \<Rightarrow> string \<Rightarrow> byte list option \<Rightarrow> ('k \<times> byte list) promise \<times> rng" where
  "deriveKey W r entropyHex salt =
     (let ikm = hexToBytes entropyHex;
          (rawSalt, r') = (case salt of Some s \<Rightarrow> (s, r) | None \<Rightarrow> getRandomValues 32 r);
          key = hkdf_sha256 W ikm rawSalt HKDF_INFO
      in (Inr (key, rawSalt), r'))"

record envelope =
  ciphertext_b64 :: string
  iv_b64 :: string
  salt_b64 :: string

text \<open>
  The three fields of the envelope are encoded in the order in which the object literal
  lists them; a \<open>RangeError\<close> thrown by one of the encodings rejects the promise.
\<close>

definition encryptMessage ::
  "'k webcrypto \<Rightarrow> nat \<Rightarrow> rng \<Rightarrow> jsstring \<Rightarrow> string \<Rightarrow> envelope promise \<times> rng" where
  "encryptMessage W max_args r plaintext entropyHex =
     (case deriveKey W r entropyHex None of
        (Inl err, r1) \<Rightarrow> (Inl err, r1)
      | (Inr (key, salt), r1) \<Rightarrow>
          (let (iv, r2) = getRandomValues 12 r1;
               encoded = TextEncoder_encode plaintext;
               cipherBuffer = aes_gcm_encrypt W key iv encoded
           in (case bytesToBase64 max_args cipherBuffer of
                 Inl err \<Rightarrow> (Inl err, r2)
               | Inr ciphertext \<Rightarrow>
                   (case bytesToBase64 max_args iv of
                      Inl err \<Rightarrow> (Inl err, r2)
                    | Inr ivB64 \<Rightarrow>
                        (case bytesToBase64 max_args salt of
                           Inl err \<Rightarrow> (Inl err, r2)
                         | Inr saltB64 \<Rightarrow>
                             (Inr \<lparr>ciphertext_b64 = ciphertext, iv_b64 = ivB64,
                                    salt_b64 = saltB64\<rparr>, r2))))))"

definition decryptMessage ::
  "'k webcrypto \<Rightarrow> rng \<Rightarrow> string \<Rightarrow> string \<Rightarrow> string \<Rightarrow> string \<Rightarrow> jsstring promise \<times> rng" where
  "decryptMessage W r ciphertext ivB64 saltB64 entropyHex =
     (case base64ToBytes saltB64 of
        Inl err \<Rightarrow> (Inl err, r)
      | Inr salt \<Rightarrow>
          (case deriveKey W r entropyHex (Some salt) of
             (Inl err, r1) \<Rightarrow> (Inl err, r1)
           | (Inr (key, used_salt), r1) \<Rightarrow>
               (case base64ToBytes ivB64 of
                  Inl err \<Rightarrow> (Inl err, r1)
                | Inr iv \<Rightarrow>
                    (case base64ToBytes ciphertext of
                       Inl err \<Rightarrow> (Inl err, r1)
                     | Inr cipherBytes \<Rightarrow>
                         (case aes_gcm_decrypt W key iv cipherBytes of
                            None \<Rightarrow> (Inl OperationError, r1)
                          | Some plainBuffer \<Rightarrow> (Inr (TextDecoder_decode plainBuffer), r1))))))"

record encrypted_file =
  encryptedBlob :: "byte list"
  file_iv :: string
  file_salt :: string

definition encryptFile ::
  "'k webcrypto \<Rightarrow> nat \<Rightarrow> rng \<Rightarrow> byte list \<Rightarrow> string \<Rightarrow> encrypted_file promise \<times> rng" where
  "encryptFile W max_args r file entropyHex =
     (case deriveKey W r entropyHex None of
        (Inl err, r1) \<Rightarrow> (Inl err, r1)
      | (Inr (key, salt), r1) \<Rightarrow>
          (let (iv, r2) = getRandomValues 12 r1;
               cipherBuffer = aes_gcm_encrypt W key iv file
           in (case bytesToBase64 max_args iv of
                 Inl err \<Rightarrow> (Inl err, r2)
               | Inr ivB64 \<Rightarrow>
                   (case bytesToBase64 max_args salt of
                      Inl err \<Rightarrow> (Inl err, r2)
                    | Inr saltB64 \<Rightarrow>
                        (Inr \<lparr>encryptedBlob = cipherBuffer, file_iv = ivB64,
                               file_salt = saltB64\<rparr>, r2)))))"

definition decryptFile ::
  "'k webcrypto \<Rightarrow> rng \<Rightarrow> byte list \<Rightarrow> string \<Rightarrow> string \<Rightarrow> string \<Rightarrow> byte list promise \<times> rng" where
  "decryptFile W r blob ivB64 saltB64 entropyHex =
     (case base64ToBytes saltB64 of
        Inl err \<Rightarrow> (Inl err, r)
      | Inr salt \<Rightarrow>
          (case deriveKey W r entropyHex (Some salt) of
             (Inl err, r1) \<Rightarrow> (Inl err, r1)
           | (Inr (key, used_salt), r1) \<Rightarrow>
               (case base64ToBytes ivB64 of
                  Inl err \<Rightarrow> (Inl err, r1)
                | Inr iv \<Rightarrow>
                    (case aes_gcm_decrypt W key iv blob of
                       None \<Rightarrow> (Inl OperationError, r1)
                     | Some plainBuffer \<Rightarrow> (Inr plainBuffer, r1)))))"

subsection \<open>A stand-in platform for running the model\<close>

text \<open>
  To evaluate the functions above on examples, the parameters need values. This
  stand-in keeps the shape of the platform's operations and none of their strength: the
  key is the first 32 bytes of input key material, salt and info; the cipher leaves the
  plaintext as it is and appends a 16-byte tag made of key and IV; decryption fails
  when the tag is not the expected one.
\<close>

definition standin_tag :: "byte list \<Rightarrow> byte list \<Rightarrow> byte list" where
  "standin_tag key iv = take 16 (iv @ key @ replicate 16 0)"

definition standin_webcrypto :: "(byte list) webcrypto" where
  "standin_webcrypto =
     \<lparr>hkdf_sha256 = (\<lambda>ikm salt info. take 32 (ikm @ salt @ info @ replicate 32 0)),
      aes_gcm_encrypt = (\<lambda>key iv plain. plain @ standin_tag key iv),
      aes_gcm_decrypt = (\<lambda>key iv cipher.
         if 16 \<le> length cipher \<and> drop (length cipher - 16) cipher = standin_tag key iv
         then Some (take (length cipher - 16) cipher) else None)\<rparr>"

section \<open>The order of ISO-8601 strings\<close>

lemma DayFromYear_less: "DayFromYear y < DayFromYear (y + 1 + int k)"
proof (induction k)
  case 0
  then show ?case using DayFromYear_step [of y] by simp
next
  case (Suc k)
  have "y + 1 + int (Suc k) = (y + 1 + int k) + 1" by simp
  then show ?case
    using Suc DayFromYear_step [of "y + 1 + int k"] by simp
qed

lemma DayFromYear_strict: "y < z \<Longrightarrow> DayFromYear y < DayFromYear z"
proof -
  assume "y < z"
  then have "z = y + 1 + int (nat (z - y - 1))" by simp
  then show ?thesis using DayFromYear_less [of y "nat (z - y - 1)"] by simp
qed

lemma DayFromYear_mono: "y \<le> z \<Longrightarrow> DayFromYear y \<le> DayFromYear z"
  using DayFromYear_strict [of y z] by (cases "y = z") simp_all

lemma year_up_bounds:
  "DayFromYear y \<le> n \<Longrightarrow>
   DayFromYear (year_up n y) \<le> n \<and> n < DayFromYear (year_up n y + 1)"
proof (induction n y rule: year_up.induct)
  case (1 n y)
  show ?case
  proof (cases "DayFromYear (y + 1) \<le> n")
    case True
    then show ?thesis using "1.IH" by (subst (1 2) year_up.simps) simp
  next
    case False
    then show ?thesis using "1.prems" by (subst (1 2) year_up.simps) simp
  qed
qed

lemma year_down_bounds:
  "n < DayFromYear (y + 1) \<Longrightarrow>
   DayFromYear (year_down n y) \<le> n \<and> n < DayFromYear (year_down n y + 1)"
proof (induction n y rule: year_down.induct)
  case (1 n y)
  show ?case
  proof (cases "n < DayFromYear y")
    case True
    then show ?thesis using "1.IH" by (subst (1 2) year_down.simps) simp
  next
    case False
    then show ?thesis using "1.prems" by (subst (1 2) year_down.simps) simp
  qed
qed

lemma DayFromYear_1970: "DayFromYear 1970 = 0"
  by (simp add: DayFromYear_def)

lemma YearFromTime_bounds:
  "DayFromYear (YearFromTime t) \<le> Day t \<and> Day t < DayFromYear (YearFromTime t + 1)"
proof (cases "0 \<le> Day t")
  case True
  then show ?thesis
    using year_up_bounds [of 1970 "Day t"] by (simp add: YearFromTime_def DayFromYear_1970)
next
  case False
  then show ?thesis
    using year_down_bounds [of "Day t" 1969] by (simp add: YearFromTime_def DayFromYear_1970)
qed

text \<open>The year is the only one whose first day is not after the day and whose successor's is.\<close>

lemma YearFromTime_eqI:
  assumes "DayFromYear y \<le> Day t" and "Day t < DayFromYear (y + 1)"
  shows "YearFromTime t = y"
proof (rule ccontr)
  assume ne: "YearFromTime t \<noteq> y"
  note b = YearFromTime_bounds [of t]
  show False
  proof (cases "YearFromTime t < y")
    case True
    then have "DayFromYear (YearFromTime t + 1) \<le> DayFromYear y"
      by (intro DayFromYear_mono) simp
    then show False using b assms by linarith
  next
    case False
    then have "y + 1 \<le> YearFromTime t" using ne by simp
    then have "DayFromYear (y + 1) \<le> DayFromYear (YearFromTime t)"
      by (rule DayFromYear_mono)
    then show False using b assms by linarith
  qed
qed

lemma YearFromTime_mono:
  assumes "Day s \<le> Day t"
  shows "YearFromTime s \<le> YearFromTime t"
proof (rule ccontr)
  assume "\<not> YearFromTime s \<le> YearFromTime t"
  then have "YearFromTime t + 1 \<le> YearFromTime s" by simp
  then have "DayFromYear (YearFromTime t + 1) \<le> DayFromYear (YearFromTime s)"
    by (rule DayFromYear_mono)
  then show False
    using YearFromTime_bounds [of s] YearFromTime_bounds [of t] assms by linarith
qed

lemma DayWithinYear_bounds: "0 \<le> DayWithinYear t \<and> DayWithinYear t \<le> 366"
  using YearFromTime_bounds [of t] DayFromYear_step [of "YearFromTime t"]
  by (simp add: DayWithinYear_def)

text \<open>Splitting a number into quotient and remainder keeps the order, lexicographically.\<close>

lemma div_mod_less:
  fixes a b n :: int
  assumes "0 < n" and less: "a < b"
  shows "a div n < b div n \<or> (a div n = b div n \<and> a mod n < b mod n)"
proof (cases "a div n = b div n")
  case True
  define q where "q = a div n * n"
  have a: "q + a mod n = a"
    unfolding q_def by (rule div_mult_mod_eq)
  have b: "q + b mod n = b"
    unfolding q_def True by (rule div_mult_mod_eq)
  have "q + a mod n < q + b mod n"
    by (subst a, subst b) (rule less)
  then have "a mod n < b mod n"
    by simp
  then show ?thesis using True by simp
next
  case False
  moreover have "a div n \<le> b div n"
    using assms by (intro zdiv_mono1) simp_all
  ultimately show ?thesis by simp
qed

lemma div_mod_less_nat:
  fixes a b n :: nat
  assumes less: "a < b"
  shows "a div n < b div n \<or> (a div n = b div n \<and> a mod n < b mod n)"
proof (cases "a div n = b div n")
  case True
  define q where "q = a div n * n"
  have a: "q + a mod n = a"
    unfolding q_def by (rule div_mult_mod_eq)
  have b: "q + b mod n = b"
    unfolding q_def True by (rule div_mult_mod_eq)
  have "q + a mod n < q + b mod n"
    by (subst a, subst b) (rule less)
  then have "a mod n < b mod n"
    by simp
  then show ?thesis using True by simp
next
  case False
  moreover have "a div n \<le> b div n"
    using assms by (intro div_le_mono) simp
  ultimately show ?thesis by simp
qed

subsection \<open>Strings\<close>

lemma str_less_irrefl: "\<not> str_less a a"
  by (induction a) simp_all

lemma str_less_asym: "str_less a b \<Longrightarrow> \<not> str_less b a"
  by (induction a b rule: str_less.induct) auto

lemma str_less_append_same: "str_less (a @ x) (a @ y) = str_less x y"
  by (induction a) simp_all

lemma str_less_append_left:
  "length a = length b \<Longrightarrow> str_less a b \<Longrightarrow> str_less (a @ x) (b @ y)"
  by (induction a b rule: list_induct2) auto

lemma length_digits: "length (digits k n) = k"
  by (induction k arbitrary: n) simp_all

lemma digit_code: "(of_char (char_of (48 + n mod 10 :: nat)) :: nat) = 48 + n mod 10"
proof -
  define r where "r = n mod 10"
  have "r < 10" by (simp add: r_def)
  then show ?thesis by (simp flip: r_def)
qed

lemma digits_less: "n < m \<Longrightarrow> m < 10 ^ k \<Longrightarrow> str_less (digits k n) (digits k m)"
proof (induction k arbitrary: n m)
  case 0
  then show ?case by simp
next
  case (Suc k)
  from Suc.prems(2) have m: "m div 10 < 10 ^ k"
    by (intro less_mult_imp_div_less) (simp add: mult.commute)
  from div_mod_less_nat [OF Suc.prems(1), of 10]
  show ?case
  proof
    assume "n div 10 < m div 10"
    then have "str_less (digits k (n div 10)) (digits k (m div 10))"
      using m by (rule Suc.IH)
    then show ?thesis
      by (simp add: str_less_append_left length_digits)
  next
    assume "n div 10 = m div 10 \<and> n mod 10 < m mod 10"
    then show ?thesis
      by (simp add: str_less_append_same digit_code del: of_char_of)
  qed
qed

lemma field_less:
  fixes a b :: int
  assumes "0 \<le> a" and "a < b" and "b < 10 ^ k"
  shows "str_less (digits k (nat a) @ x) (digits k (nat b) @ y)"
proof -
  have "nat a < nat b" using assms by simp
  moreover have "nat b < 10 ^ k"
    using assms by (simp add: nat_less_iff)
  ultimately have "str_less (digits k (nat a)) (digits k (nat b))"
    by (rule digits_less)
  then show ?thesis
    by (simp add: str_less_append_left length_digits)
qed

subsection \<open>The time of day\<close>

lemma seconds_split:
  fixes t :: int
  shows "t div 60000 = t div 1000 div 60" and "t div 3600000 = t div 1000 div 60 div 60"
    and "t div 86400000 = t div 1000 div 60 div 60 div 24"
proof -
  have "t div 60000 = t div (1000 * 60)" by simp
  also have "\<dots> = t div 1000 div 60" by (rule zdiv_zmult2_eq) simp
  finally show a: "t div 60000 = t div 1000 div 60" .
  have "t div 3600000 = t div (60000 * 60)" by simp
  also have "\<dots> = t div 60000 div 60" by (rule zdiv_zmult2_eq) simp
  finally show b: "t div 3600000 = t div 1000 div 60 div 60" by (simp only: a)
  have "t div 86400000 = t div (3600000 * 24)" by simp
  also have "\<dots> = t div 3600000 div 24" by (rule zdiv_zmult2_eq) simp
  finally show "t div 86400000 = t div 1000 div 60 div 60 div 24" by (simp only: b)
qed

lemma time_string_less:
  assumes "Day s = Day t" and "s < t"
  shows "str_less (time_string s @ x) (time_string t @ y)"
proof -
  define a1 b1 where "a1 = s div 1000" and "b1 = t div 1000"
  define a2 b2 where "a2 = a1 div 60" and "b2 = b1 div 60"
  define a3 b3 where "a3 = a2 div 60" and "b3 = b2 div 60"
  have day: "a3 div 24 = b3 div 24"
    using assms(1)
    by (simp add: Day_def msPerDay_def seconds_split a1_def b1_def a2_def b2_def a3_def b3_def)
  have ts: "time_string s =
      digits 2 (nat (a3 mod 24)) @ '':'' @ digits 2 (nat (a2 mod 60)) @ '':''
      @ digits 2 (nat (a1 mod 60)) @ ''.'' @ digits 3 (nat (s mod 1000))"
    by (simp add: time_string_def HourFromTime_def MinFromTime_def SecFromTime_def
        msFromTime_def seconds_split a1_def a2_def a3_def)
  have tt: "time_string t =
      digits 2 (nat (b3 mod 24)) @ '':'' @ digits 2 (nat (b2 mod 60)) @ '':''
      @ digits 2 (nat (b1 mod 60)) @ ''.'' @ digits 3 (nat (t mod 1000))"
    by (simp add: time_string_def HourFromTime_def MinFromTime_def SecFromTime_def
        msFromTime_def seconds_split b1_def b2_def b3_def)
  have h: "str_less (digits 2 (nat (a mod 24)) @ u) (digits 2 (nat (b mod 24)) @ v)"
    if "a mod 24 < b mod 24" for a b :: int and u v
    using that by (intro field_less) simp_all
  have m: "str_less (digits 2 (nat (a mod 60)) @ u) (digits 2 (nat (b mod 60)) @ v)"
    if "a mod 60 < b mod 60" for a b :: int and u v
    using that by (intro field_less) simp_all
  have ml: "str_less (digits 3 (nat (a mod 1000)) @ u) (digits 3 (nat (b mod 1000)) @ v)"
    if "a mod 1000 < b mod 1000" for a b :: int and u v
    using that by (intro field_less) simp_all
  consider (ms) "a1 = b1" "s mod 1000 < t mod 1000"
    | (sec) "a2 = b2" "a1 mod 60 < b1 mod 60"
    | (mi) "a3 = b3" "a2 mod 60 < b2 mod 60"
    | (hour) "a3 mod 24 < b3 mod 24"
  proof -
    from div_mod_less [of 1000 s t] assms(2)
    have 1: "a1 < b1 \<or> (a1 = b1 \<and> s mod 1000 < t mod 1000)"
      by (simp add: a1_def b1_def)
    have 2: "a2 < b2 \<or> (a2 = b2 \<and> a1 mod 60 < b1 mod 60)" if "a1 < b1"
      using div_mod_less [of 60 a1 b1] that by (simp add: a2_def b2_def)
    have 3: "a3 < b3 \<or> (a3 = b3 \<and> a2 mod 60 < b2 mod 60)" if "a2 < b2"
      using div_mod_less [of 60 a2 b2] that by (simp add: a3_def b3_def)
    have 4: "a3 mod 24 < b3 mod 24" if "a3 < b3"
      using div_mod_less [of 24 a3 b3] that day by simp
    from 1 2 3 4 show ?thesis
      using ms sec mi hour by blast
  qed
  then show ?thesis
  proof cases
    case ms
    then have "a2 = b2" "a3 = b3" by (simp_all add: a2_def b2_def a3_def b3_def)
    then show ?thesis
      using ms by (simp add: ts tt str_less_append_same ml)
  next
    case sec
    then have "a3 = b3" by (simp add: a3_def b3_def)
    then show ?thesis
      using sec by (simp add: ts tt str_less_append_same m)
  next
    case mi
    then show ?thesis
      by (simp add: ts tt str_less_append_same m)
  next
    case hour
    then show ?thesis
      by (simp add: ts tt h)
  qed
qed

lemma length_time_string: "length (time_string t) = 12"
  by (simp add: time_string_def length_digits)

subsection \<open>The date\<close>

lemma month_date_less:
  fixes d d' leap :: int
  assumes "d < d'" and "leap = 0 \<or> leap = 1"
  shows "month_of leap d < month_of leap d'
     \<or> (month_of leap d = month_of leap d' \<and> date_of leap d < date_of leap d')"
  using assms by (auto simp add: month_of_def date_of_def)

lemma month_of_bounds: "0 \<le> month_of leap d \<and> month_of leap d \<le> 11"
  by (simp add: month_of_def)

lemma date_of_bounds:
  fixes d leap :: int
  assumes "0 \<le> d" and "d \<le> 366" and "leap = 0 \<or> leap = 1"
  shows "1 \<le> date_of leap d \<and> date_of leap d \<le> 33"
  using assms by (auto simp add: date_of_def)

lemma InLeapYear_cases: "InLeapYear t = 0 \<or> InLeapYear t = 1"
  by (simp add: InLeapYear_def)

lemma first_day: "Day (- 62167219200000) = DayFromYear 0"
  by (simp add: Day_def msPerDay_def DayFromYear_def)

lemma last_day: "Day 253402300799999 + 1 = DayFromYear 10000"
  by (simp add: Day_def msPerDay_def DayFromYear_def)

lemma Day_mono: "s \<le> t \<Longrightarrow> Day s \<le> Day t"
  by (simp add: Day_def msPerDay_def zdiv_mono1)

lemma four_digit_year_bounds:
  assumes "four_digit_year t"
  shows "0 \<le> YearFromTime t \<and> YearFromTime t \<le> 9999"
proof -
  note b = YearFromTime_bounds [of t]
  have lo: "DayFromYear 0 \<le> Day t"
    using assms Day_mono [of "- 62167219200000" t] by (simp add: four_digit_year_def first_day)
  have hi: "Day t < DayFromYear 10000"
    using assms Day_mono [of t 253402300799999] last_day by (simp add: four_digit_year_def)
  have "0 \<le> YearFromTime t"
  proof (rule ccontr)
    assume "\<not> 0 \<le> YearFromTime t"
    then have "DayFromYear (YearFromTime t + 1) \<le> DayFromYear 0"
      by (intro DayFromYear_mono) simp
    then show False using b lo by linarith
  qed
  moreover have "YearFromTime t \<le> 9999"
  proof (rule ccontr)
    assume "\<not> YearFromTime t \<le> 9999"
    then have "DayFromYear 10000 \<le> DayFromYear (YearFromTime t)"
      by (intro DayFromYear_mono) simp
    then show False using b hi by linarith
  qed
  ultimately show ?thesis by simp
qed

lemma length_date_string: "four_digit_year t \<Longrightarrow> length (date_string t) = 10"
  using four_digit_year_bounds [of t] by (simp add: date_string_def year_string_def length_digits)

lemma date_string_cong: "Day s = Day t \<Longrightarrow> date_string s = date_string t"
  by (simp add: date_string_def YearFromTime_def MonthFromTime_def DateFromTime_def
      InLeapYear_def DayWithinYear_def)

lemma date_string_less:
  assumes "four_digit_year s" and "four_digit_year t" and "Day s < Day t"
  shows "str_less (date_string s @ x) (date_string t @ y)"
proof -
  note ys = four_digit_year_bounds [OF assms(1)]
  note yt = four_digit_year_bounds [OF assms(2)]
  have le: "YearFromTime s \<le> YearFromTime t"
    using assms(3) by (intro YearFromTime_mono) simp
  show ?thesis
  proof (cases "YearFromTime s = YearFromTime t")
    case False
    then have "YearFromTime s < YearFromTime t" using le by simp
    then have "str_less (digits 4 (nat (YearFromTime s)) @ u) (digits 4 (nat (YearFromTime t)) @ v)"
      for u v
      using ys yt by (intro field_less) simp_all
    then show ?thesis
      using ys yt by (simp add: date_string_def year_string_def)
  next
    case True
    then have leap: "InLeapYear s = InLeapYear t"
      by (simp add: InLeapYear_def)
    define l where "l = InLeapYear t"
    define d d' where "d = DayWithinYear s" and "d' = DayWithinYear t"
    have l: "l = 0 \<or> l = 1"
      using InLeapYear_cases [of t] by (simp add: l_def)
    have dd: "d < d'"
      using assms(3) True by (simp add: d_def d'_def DayWithinYear_def)
    have bd: "0 \<le> d" "d \<le> 366" "0 \<le> d'" "d' \<le> 366"
      using DayWithinYear_bounds [of s] DayWithinYear_bounds [of t] by (simp_all add: d_def d'_def)
    note ms = month_of_bounds [of l d] and mt = month_of_bounds [of l d']
    note ds = date_of_bounds [OF bd(1) bd(2) l] and dt = date_of_bounds [OF bd(3) bd(4) l]
    have s: "date_string s = digits 4 (nat (YearFromTime t)) @ ''-''
        @ digits 2 (nat (month_of l d + 1)) @ ''-'' @ digits 2 (nat (date_of l d))"
      using yt by (simp add: date_string_def year_string_def True MonthFromTime_def
          DateFromTime_def leap l_def d_def)
    have t: "date_string t = digits 4 (nat (YearFromTime t)) @ ''-''
        @ digits 2 (nat (month_of l d' + 1)) @ ''-'' @ digits 2 (nat (date_of l d'))"
      using yt by (simp add: date_string_def year_string_def MonthFromTime_def
          DateFromTime_def l_def d'_def)
    from month_date_less [OF dd l] show ?thesis
    proof
      assume "month_of l d < month_of l d'"
      then have "str_less (digits 2 (nat (month_of l d + 1)) @ u)
          (digits 2 (nat (month_of l d' + 1)) @ v)" for u v
        using ms mt by (intro field_less) simp_all
      then show ?thesis
        by (simp add: s t str_less_append_same)
    next
      assume a: "month_of l d = month_of l d' \<and> date_of l d < date_of l d'"
      then have "str_less (digits 2 (nat (date_of l d)) @ u)
          (digits 2 (nat (date_of l d')) @ v)" for u v
        using ds dt by (intro field_less) simp_all
      then show ?thesis
        using a by (simp add: s t str_less_append_same)
    qed
  qed
qed

subsection \<open>The whole string\<close>

lemma toISOString_less:
  assumes "four_digit_year s" and "four_digit_year t" and "s < t"
  shows "str_less (toISOString s) (toISOString t)"
proof (cases "Day s = Day t")
  case True
  then show ?thesis
    using time_string_less [OF True assms(3)]
    by (simp add: toISOString_def date_string_cong [OF True] str_less_append_same)
next
  case False
  then have "Day s < Day t"
    using Day_mono [of s t] assms(3) by simp
  then show ?thesis
    unfolding toISOString_def by (rule date_string_less [OF assms(1) assms(2)])
qed

lemma toISOString_order:
  assumes "four_digit_year s" and "four_digit_year t"
  shows "str_less (toISOString s) (toISOString t) \<longleftrightarrow> s < t"
proof
  assume l: "str_less (toISOString s) (toISOString t)"
  show "s < t"
  proof (rule ccontr)
    assume "\<not> s < t"
    then consider "s = t" | "t < s" by fastforce
    then show False
    proof cases
      case 1
      then show False using l by (simp add: str_less_irrefl)
    next
      case 2
      then have "str_less (toISOString t) (toISOString s)"
        by (rule toISOString_less [OF assms(2) assms(1)])
      then show False using l by (simp add: str_less_asym)
    qed
  qed
next
  assume "s < t"
  then show "str_less (toISOString s) (toISOString t)"
    by (rule toISOString_less [OF assms])
qed

lemma length_toISOString: "four_digit_year t \<Longrightarrow> length (toISOString t) = 24"
  by (simp add: toISOString_def length_date_string length_time_string)

section \<open>Ingestion\<close>

lemma findOne_hex_None: "findOne_hex h log = None \<longleftrightarrow> h \<notin> doc_entropy_hex ` set log"
  by (auto simp: findOne_hex_def find_None_iff)

lemma handle_post_fresh:
  assumes "length bytes = 32" and "db_up e" and "bytesToHex bytes \<notin> doc_entropy_hex ` set log"
  shows "handle_post e bytes log =
     (Response 200 (Accepted 32),
      log @ [\<lparr>doc_entropy_hex = bytesToHex bytes, doc_source = Hardware,
               doc_used = False, doc_created_at = toISOString (now e)\<rparr>])"
proof -
  have "findOne_hex (bytesToHex bytes) log = None"
    using assms(3) by (simp add: findOne_hex_None)
  then show ?thesis
    using assms(1,2) by (simp add: handle_post_def ENTROPY_BYTES_def)
qed

lemma handle_post_replay:
  assumes "length bytes = 32" and "db_up e" and "bytesToHex bytes \<in> doc_entropy_hex ` set log"
  shows "handle_post e bytes log = (Response 409 (ErrorBody ReplayedEntropy), log)"
proof -
  have "findOne_hex (bytesToHex bytes) log \<noteq> None"
    using assms(3) by (simp add: findOne_hex_None)
  then obtain d where "findOne_hex (bytesToHex bytes) log = Some d"
    by blast
  then show ?thesis
    using assms(1,2) by (simp add: handle_post_def ENTROPY_BYTES_def)
qed

text \<open>Setting the \<open>used\<close> flag of a document leaves every digest where it was.\<close>

lemma map_hex_mark_used:
  "map doc_entropy_hex (log[i := (log ! i)\<lparr>doc_used := True\<rparr>]) = map doc_entropy_hex log"
proof (cases "i < length log")
  case True
  then show ?thesis
    by (simp add: map_update list_update_same_conv)
next
  case False
  then show ?thesis by (simp add: list_update_beyond)
qed

lemma handle_post_hexes:
  "map doc_entropy_hex (snd (handle_post e bytes log)) = map doc_entropy_hex log
   \<or> (bytesToHex bytes \<notin> doc_entropy_hex ` set log
      \<and> map doc_entropy_hex (snd (handle_post e bytes log))
          = map doc_entropy_hex log @ [bytesToHex bytes])"
  by (auto simp: handle_post_def Let_def findOne_hex_None [symmetric] split: option.splits)

lemma handle_get_hexes:
  "map doc_entropy_hex (fst (snd (handle_get e r log))) = map doc_entropy_hex log"
  by (simp add: handle_get_def Let_def map_hex_mark_used split: option.splits prod.splits)

lemma serve_hexes:
  "map doc_entropy_hex (fst (snd (serve e req (log, r)))) = map doc_entropy_hex log
   \<or> (\<exists>bytes. bytesToHex bytes \<notin> doc_entropy_hex ` set log
      \<and> map doc_entropy_hex (fst (snd (serve e req (log, r))))
          = map doc_entropy_hex log @ [bytesToHex bytes])"
proof (cases req)
  case (POST bytes)
  then show ?thesis
    using handle_post_hexes [of e bytes log]
    by (auto simp: serve_def split: prod.splits)
next
  case GET
  then show ?thesis by (simp add: serve_def handle_get_hexes)
qed (simp_all add: serve_def)

lemma serve_distinct:
  assumes "distinct (map doc_entropy_hex log)"
  shows "distinct (map doc_entropy_hex (fst (snd (serve e req (log, r)))))"
  using serve_hexes [of e req log r] assms by auto

lemma serve_keeps_hex:
  assumes "h \<in> doc_entropy_hex ` set log"
  shows "h \<in> doc_entropy_hex ` set (fst (snd (serve e req (log, r))))"
proof -
  let ?log' = "fst (snd (serve e req (log, r)))"
  have "set (map doc_entropy_hex log) \<subseteq> set (map doc_entropy_hex ?log')"
    using serve_hexes [of e req log r] by (metis set_append Un_upper1 subset_refl)
  then show ?thesis using assms by auto
qed

lemma serve_all_distinct:
  "distinct (map doc_entropy_hex log) \<Longrightarrow>
   distinct (map doc_entropy_hex (fst (snd (serve_all reqs (log, r)))))"
proof (induction reqs arbitrary: log r)
  case Nil
  then show ?case by simp
next
  case (Cons a reqs)
  obtain e req where a: "a = (e, req)" by (cases a)
  obtain resp log' r' where s: "serve e req (log, r) = (resp, log', r')"
    by (cases "serve e req (log, r)")
  have "distinct (map doc_entropy_hex log')"
    using serve_distinct [OF Cons.prems, of e req r] s by simp
  from Cons.IH [OF this, of r'] show ?case
    by (simp add: a s split_beta)
qed

lemma serve_all_keeps_hex:
  "h \<in> doc_entropy_hex ` set log \<Longrightarrow>
   h \<in> doc_entropy_hex ` set (fst (snd (serve_all reqs (log, r))))"
proof (induction reqs arbitrary: log r)
  case Nil
  then show ?case by simp
next
  case (Cons a reqs)
  obtain e req where a: "a = (e, req)" by (cases a)
  obtain resp log' r' where s: "serve e req (log, r) = (resp, log', r')"
    by (cases "serve e req (log, r)")
  have "h \<in> doc_entropy_hex ` set log'"
    using serve_keeps_hex [OF Cons.prems, of e req r] s by simp
  from Cons.IH [OF this, of r'] show ?case
    by (simp add: a s split_beta)
qed

text \<open>
  C4. A 32-byte payload whose digest is not yet in the log is accepted: the response is
  200 and one document is appended, with the payload's digest, source Hardware and
  \<open>used = false\<close>. Whatever requests are served afterwards, ingesting the same payload
  again is answered with 409 (replay) and the log is left as it was. Hence every log
  that grows from the empty one holds each digest at most once.
\<close>

theorem ingest_twice_replayed:
  "(length bytes = 32 \<and> db_up e1 \<and> db_up e2
      \<and> bytesToHex bytes \<notin> doc_entropy_hex ` set log \<longrightarrow>
      handle_post e1 bytes log =
        (Response 200 (Accepted 32),
         log @ [\<lparr>doc_entropy_hex = bytesToHex bytes, doc_source = Hardware,
                  doc_used = False, doc_created_at = toISOString (now e1)\<rparr>])
      \<and> handle_post e2 bytes
            (fst (snd (serve_all reqs (snd (handle_post e1 bytes log), r)))) =
          (Response 409 (ErrorBody ReplayedEntropy),
           fst (snd (serve_all reqs (snd (handle_post e1 bytes log), r)))))
   \<and> distinct (map doc_entropy_hex (fst (snd (serve_all reqs ([], r)))))"
proof (intro conjI impI)
  assume a: "length bytes = 32 \<and> db_up e1 \<and> db_up e2
      \<and> bytesToHex bytes \<notin> doc_entropy_hex ` set log"
  let ?doc = "\<lparr>doc_entropy_hex = bytesToHex bytes, doc_source = Hardware,
                  doc_used = False, doc_created_at = toISOString (now e1)\<rparr>"
  show first: "handle_post e1 bytes log = (Response 200 (Accepted 32), log @ [?doc])"
    using a by (simp add: handle_post_fresh)
  have "bytesToHex bytes \<in> doc_entropy_hex ` set (log @ [?doc])"
    by simp
  then have "bytesToHex bytes
      \<in> doc_entropy_hex ` set (fst (snd (serve_all reqs (log @ [?doc], r))))"
    by (rule serve_all_keeps_hex)
  then show "handle_post e2 bytes
            (fst (snd (serve_all reqs (snd (handle_post e1 bytes log), r)))) =
          (Response 409 (ErrorBody ReplayedEntropy),
           fst (snd (serve_all reqs (snd (handle_post e1 bytes log), r))))"
    using a by (simp add: first handle_post_replay)
next
  show "distinct (map doc_entropy_hex (fst (snd (serve_all reqs ([], r)))))"
    by (rule serve_all_distinct) simp
qed

lemmas endpoint_defs =
  handle_post_def serve_def handle_get_def findOne_fresh_def matches_fresh_def
  ENTROPY_BYTES_def ENTROPY_MAX_AGE_MS_def findOne_hex_def newer_def getRandomValues_def
  valid_time_def

lemmas hex_defs = bytesToHex_def padStart_def toString16_def hex_digit_def upt_rec

text \<open>Some instants of the first minutes of 1970, and a recent one, as strings.\<close>

lemma iso_1000: "toISOString 1000 = ''1970-01-01T00:00:01.000Z''"
  by code_simp

lemma iso_2000: "toISOString 2000 = ''1970-01-01T00:00:02.000Z''"
  by code_simp

lemma iso_cutoff_2000: "toISOString (- 28000) = ''1969-12-31T23:59:32.000Z''"
  by code_simp

lemma iso_cutoff_3000: "toISOString (- 27000) = ''1969-12-31T23:59:33.000Z''"
  by code_simp

lemma iso_cutoff_4000: "toISOString (- 26000) = ''1969-12-31T23:59:34.000Z''"
  by code_simp

lemma iso_recent: "toISOString 1762041600123 = ''2025-11-02T00:00:00.123Z''"
  by code_simp

theorem ingest_twice_replayed_witness:
  "handle_post \<lparr>now = 1000, now_reply = 1000, db_up = True\<rparr> (map of_nat [1..<33]) [] =
     (Response 200 (Accepted 32),
      [\<lparr>doc_entropy_hex = ''0102030405060708090a0b0c0d0e0f101112131415161718191a1b1c1d1e1f20'',
        doc_source = Hardware, doc_used = False, doc_created_at = ''1970-01-01T00:00:01.000Z''\<rparr>])
   \<and> handle_post \<lparr>now = 3000, now_reply = 3000, db_up = True\<rparr> (map of_nat [1..<33])
       (fst (snd (serve_all [(\<lparr>now = 2000, now_reply = 2001, db_up = True\<rparr>, GET)]
          (snd (handle_post \<lparr>now = 1000, now_reply = 1000, db_up = True\<rparr> (map of_nat [1..<33]) []),
           (\<lambda>i. of_nat i))))) =
     (Response 409 (ErrorBody ReplayedEntropy),
      [\<lparr>doc_entropy_hex = ''0102030405060708090a0b0c0d0e0f101112131415161718191a1b1c1d1e1f20'',
        doc_source = Hardware, doc_used = True, doc_created_at = ''1970-01-01T00:00:01.000Z''\<rparr>])"
  using ingest_twice_replayed [of "map of_nat [1..<33]" "\<lparr>now = 1000, now_reply = 1000, db_up = True\<rparr>"
      "\<lparr>now = 3000, now_reply = 3000, db_up = True\<rparr>" "[]"
      "[(\<lparr>now = 2000, now_reply = 2001, db_up = True\<rparr>, GET)]" "\<lambda>i. of_nat i"]
  by (simp add: endpoint_defs hex_defs iso_1000 iso_cutoff_2000)

section \<open>Degenerate payloads\<close>

text \<open>
  The in-memory variant refuses a 32-byte payload of all zeros or all ones, and changes
  nothing.
\<close>

lemma mem_post_entropy_degenerate:
  assumes "length entropy = 32"
    and "(\<forall>b \<in> set entropy. b = 0) \<or> (\<forall>b \<in> set entropy. b = 0xFF)"
  shows "mem_post_entropy sha256 t entropy st = (MemError 400 DegenerateEntropy, st)"
  using assms by (auto simp: mem_post_entropy_def list_all_iff)

text \<open>
  C6. The endpoint backed by the document store has no such check: 32 zero bytes, and
  32 bytes \<open>0xFF\<close>, are accepted with status 200 and stored as Hardware samples.
\<close>

theorem degenerate_payload_accepted:
  "handle_post \<lparr>now = 1000, now_reply = 1000, db_up = True\<rparr> (replicate 32 0) [] =
     (Response 200 (Accepted 32),
      [\<lparr>doc_entropy_hex = ''0000000000000000000000000000000000000000000000000000000000000000'',
        doc_source = Hardware, doc_used = False, doc_created_at = ''1970-01-01T00:00:01.000Z''\<rparr>])
   \<and> handle_post \<lparr>now = 1000, now_reply = 1000, db_up = True\<rparr> (replicate 32 0xFF) [] =
     (Response 200 (Accepted 32),
      [\<lparr>doc_entropy_hex = ''ffffffffffffffffffffffffffffffffffffffffffffffffffffffffffffffff'',
        doc_source = Hardware, doc_used = False, doc_created_at = ''1970-01-01T00:00:01.000Z''\<rparr>])"
  by code_simp

section \<open>Issuance\<close>

lemma fold_newer_in: "fold (newer log) rest i \<in> set (i # rest)"
proof (induction rest arbitrary: i)
  case Nil
  then show ?case by simp
next
  case (Cons j rest)
  have "newer log j i = i \<or> newer log j i = j"
    by (simp add: newer_def)
  then show ?case
    using Cons.IH [of "newer log j i"] by auto
qed

lemma findOne_fresh_Some:
  assumes "findOne_fresh cutoff log = Some i"
  shows "i < length log \<and> matches_fresh cutoff (log ! i)"
proof -
  let ?cands = "filter (\<lambda>i. matches_fresh cutoff (log ! i)) [0..<length log]"
  obtain i0 rest where c: "?cands = i0 # rest" and i: "i = fold (newer log) rest i0"
    using assms by (auto simp: findOne_fresh_def split: list.splits)
  have "i \<in> set ?cands"
    unfolding c i by (rule fold_newer_in)
  then show ?thesis by simp
qed

lemma findOne_fresh_None:
  "findOne_fresh cutoff log = None \<longleftrightarrow> (\<forall>d \<in> set log. \<not> matches_fresh cutoff d)"
proof -
  have "findOne_fresh cutoff log = None \<longleftrightarrow>
      filter (\<lambda>i. matches_fresh cutoff (log ! i)) [0..<length log] = []"
    by (simp add: findOne_fresh_def split: list.splits)
  also have "\<dots> \<longleftrightarrow> (\<forall>i < length log. \<not> matches_fresh cutoff (log ! i))"
    by (auto simp: filter_empty_conv)
  also have "\<dots> \<longleftrightarrow> (\<forall>d \<in> set log. \<not> matches_fresh cutoff d)"
    by (metis in_set_conv_nth)
  finally show ?thesis .
qed

lemma length_bytesToHex: "length (bytesToHex bytes) = 2 * length bytes"
  by (induction bytes) (simp_all add: bytesToHex_def padStart_def toString16_def)

text \<open>
  Within the years 0 to 9999 the store's order of the strings is the order of the
  instants, so a document is at or after the cutoff as a string exactly when it is as an
  instant.
\<close>

lemma four_digit_year_valid: "four_digit_year t \<Longrightarrow> valid_time t"
  by (auto simp add: four_digit_year_def valid_time_def abs_if)

lemma matches_fresh_instant:
  assumes "four_digit_year c" and "four_digit_year t" and "doc_created_at d = toISOString t"
  shows "matches_fresh (toISOString c) d \<longleftrightarrow> \<not> doc_used d \<and> doc_source d = Hardware \<and> c \<le> t"
  using assms by (auto simp: matches_fresh_def toISOString_order)

lemma issuance_fallback:
  assumes "db_up e"
    and "four_digit_year (now e - 30000)"
    and "\<forall>d \<in> set log. doc_used d \<or> doc_source d \<noteq> Hardware
        \<or> (\<exists>t. doc_created_at d = toISOString t \<and> four_digit_year t \<and> t < now e - 30000)"
  shows "handle_get e r log =
      (Response 200 (Entropy Software (bytesToHex (map r [0..<32])) (toISOString (now_reply e))),
       log, (\<lambda>i. r (i + 32)))
    \<and> length (bytesToHex (map r [0..<32])) = 64"
proof -
  have "\<forall>d \<in> set log. \<not> matches_fresh (toISOString (now e - ENTROPY_MAX_AGE_MS)) d"
  proof
    fix d assume "d \<in> set log"
    with assms(3) consider "doc_used d" | "doc_source d \<noteq> Hardware"
      | t where "doc_created_at d = toISOString t" "four_digit_year t" "t < now e - 30000"
      by blast
    then show "\<not> matches_fresh (toISOString (now e - ENTROPY_MAX_AGE_MS)) d"
    proof cases
      case 3
      then show ?thesis
        using assms(2) by (simp add: matches_fresh_instant ENTROPY_MAX_AGE_MS_def)
    qed (simp_all add: matches_fresh_def)
  qed
  then have "findOne_fresh (toISOString (now e - ENTROPY_MAX_AGE_MS)) log = None"
    by (simp add: findOne_fresh_None)
  moreover have "valid_time (now e - ENTROPY_MAX_AGE_MS)"
    using assms(2) by (simp add: four_digit_year_valid ENTROPY_MAX_AGE_MS_def)
  ultimately show ?thesis
    using assms(1)
    by (simp add: handle_get_def getRandomValues_def ENTROPY_BYTES_def length_bytesToHex)
qed

text \<open>
  C7. The clock is in the years 0 to 9999, where the strings the store compares are
  ordered as the instants they denote. When the store is reachable and every document is
  used, not of source Hardware, or was created before the cutoff (the time of the request
  less 30 seconds), the issuance handler answers 200 with source Software and the hex
  form of 32 bytes it draws from the random generator (64 characters), stamped with the
  time of the answer, and returns the log exactly as it found it.
\<close>

theorem issuance_software_fallback:
  assumes "db_up e"
    and "four_digit_year (now e - 30000)"
    and "\<forall>d \<in> set log. doc_used d \<or> doc_source d \<noteq> Hardware
        \<or> (\<exists>t. doc_created_at d = toISOString t \<and> four_digit_year t \<and> t < now e - 30000)"
  shows "handle_get e r log =
      (Response 200 (Entropy Software (bytesToHex (map r [0..<32])) (toISOString (now_reply e))),
       log, (\<lambda>i. r (i + 32)))
    \<and> length (bytesToHex (map r [0..<32])) = 64"
  using assms by (rule issuance_fallback)

lemma iso_69999: "toISOString 69999 = ''1970-01-01T00:01:09.999Z''"
  by code_simp

lemma iso_100020: "toISOString 100020 = ''1970-01-01T00:01:40.020Z''"
  by code_simp

theorem issuance_software_fallback_witness:
  "handle_get \<lparr>now = 100000, now_reply = 100020, db_up = True\<rparr> (\<lambda>i. of_nat (7 * i))
      [\<lparr>doc_entropy_hex = ''aa'', doc_source = Hardware, doc_used = True,
        doc_created_at = ''1970-01-01T00:01:39.000Z''\<rparr>,
       \<lparr>doc_entropy_hex = ''bb'', doc_source = Hardware, doc_used = False,
        doc_created_at = ''1970-01-01T00:01:09.999Z''\<rparr>] =
     (Response 200 (Entropy Software
        ''00070e151c232a31383f464d545b626970777e858c939aa1a8afb6bdc4cbd2d9''
        ''1970-01-01T00:01:40.020Z''),
      [\<lparr>doc_entropy_hex = ''aa'', doc_source = Hardware, doc_used = True,
        doc_created_at = ''1970-01-01T00:01:39.000Z''\<rparr>,
       \<lparr>doc_entropy_hex = ''bb'', doc_source = Hardware, doc_used = False,
        doc_created_at = ''1970-01-01T00:01:09.999Z''\<rparr>],
      (\<lambda>i. of_nat (7 * (i + 32))))"
proof -
  have hex: "bytesToHex (map (\<lambda>i. of_nat (7 * i)) [0..<32]) =
      ''00070e151c232a31383f464d545b626970777e858c939aa1a8afb6bdc4cbd2d9''"
    by code_simp
  have old: "\<exists>t. ''1970-01-01T00:01:09.999Z'' = toISOString t \<and> four_digit_year t \<and> t < 70000"
    by (rule exI [of _ 69999]) (simp add: iso_69999 four_digit_year_def)
  show ?thesis
    using issuance_software_fallback [of "\<lparr>now = 100000, now_reply = 100020, db_up = True\<rparr>"
        "[\<lparr>doc_entropy_hex = ''aa'', doc_source = Hardware, doc_used = True,
           doc_created_at = ''1970-01-01T00:01:39.000Z''\<rparr>,
          \<lparr>doc_entropy_hex = ''bb'', doc_source = Hardware, doc_used = False,
           doc_created_at = ''1970-01-01T00:01:09.999Z''\<rparr>]"
        "\<lambda>i. of_nat (7 * i)"] old
    unfolding hex by (simp add: four_digit_year_def iso_100020)
qed

section \<open>Single use of a Hardware sample\<close>

text \<open>What one request can do to the documents already in the log.\<close>

lemma handle_post_prefix:
  "\<exists>new. snd (handle_post e bytes log) = log @ new"
  by (simp add: handle_post_def Let_def split: option.splits)

lemma handle_get_cases:
  "(\<exists>i. findOne_fresh (toISOString (now e - ENTROPY_MAX_AGE_MS)) log = Some i \<and> db_up e
        \<and> valid_time (now e - ENTROPY_MAX_AGE_MS)
        \<and> handle_get e r log =
            (Response 200 (Entropy Hardware (doc_entropy_hex (log ! i)) (doc_created_at (log ! i))),
             log[i := (log ! i)\<lparr>doc_used := True\<rparr>], r))
   \<or> (issued_hardware (fst (handle_get e r log)) = [] \<and> fst (snd (handle_get e r log)) = log)"
  by (cases "findOne_fresh (toISOString (now e - ENTROPY_MAX_AGE_MS)) log")
     (simp_all add: handle_get_def Let_def split_beta)

lemma serve_flags:
  assumes "i < length log"
  shows "i < length (fst (snd (serve e req (log, r))))
    \<and> doc_entropy_hex (fst (snd (serve e req (log, r))) ! i) = doc_entropy_hex (log ! i)
    \<and> (doc_used (log ! i) \<longrightarrow> doc_used (fst (snd (serve e req (log, r))) ! i))"
proof (cases req)
  case (POST bytes)
  obtain new where "snd (handle_post e bytes log) = log @ new"
    using handle_post_prefix by blast
  then show ?thesis
    using assms by (simp add: POST serve_def split_beta nth_append)
next
  case GET
  from handle_get_cases [of e log r] show ?thesis
  proof
    assume "\<exists>i. findOne_fresh (toISOString (now e - ENTROPY_MAX_AGE_MS)) log = Some i \<and> db_up e
        \<and> valid_time (now e - ENTROPY_MAX_AGE_MS)
        \<and> handle_get e r log =
            (Response 200 (Entropy Hardware (doc_entropy_hex (log ! i)) (doc_created_at (log ! i))),
             log[i := (log ! i)\<lparr>doc_used := True\<rparr>], r)"
    then obtain j where "handle_get e r log =
            (Response 200 (Entropy Hardware (doc_entropy_hex (log ! j)) (doc_created_at (log ! j))),
             log[j := (log ! j)\<lparr>doc_used := True\<rparr>], r)"
      by blast
    then show ?thesis
      using assms by (cases "i = j") (simp_all add: GET serve_def)
  next
    assume "issued_hardware (fst (handle_get e r log)) = [] \<and> fst (snd (handle_get e r log)) = log"
    then show ?thesis
      using assms by (simp add: GET serve_def)
  qed
qed (simp_all add: serve_def assms)

lemma no_used_copy_back:
  assumes "no_used_copy (fst (snd (serve e req (log, r)))) h"
  shows "no_used_copy log h"
  unfolding no_used_copy_def
proof (intro ballI impI)
  fix d assume "d \<in> set log" and h: "doc_entropy_hex d = h"
  then obtain i where i: "i < length log" and d: "d = log ! i"
    by (metis in_set_conv_nth)
  let ?log' = "fst (snd (serve e req (log, r)))"
  from serve_flags [OF i, of e req r]
  have 1: "i < length ?log'" and 2: "doc_entropy_hex (?log' ! i) = h"
    and 3: "doc_used (log ! i) \<longrightarrow> doc_used (?log' ! i)"
    using h d by simp_all
  have "?log' ! i \<in> set ?log'" using 1 by simp
  then have "\<not> doc_used (?log' ! i)"
    using assms 2 by (simp add: no_used_copy_def)
  then show "\<not> doc_used d" using 3 d by blast
qed

lemma issued_marks_used:
  assumes "distinct (map doc_entropy_hex log)"
    and "issued_hardware (fst (serve e req (log, r))) = [h]"
  shows "no_used_copy log h \<and> \<not> no_used_copy (fst (snd (serve e req (log, r)))) h"
proof (cases req)
  case GET
  from handle_get_cases [of e log r] assms(2) GET
  obtain i where f: "findOne_fresh (toISOString (now e - ENTROPY_MAX_AGE_MS)) log = Some i"
    and g: "handle_get e r log =
            (Response 200 (Entropy Hardware (doc_entropy_hex (log ! i)) (doc_created_at (log ! i))),
             log[i := (log ! i)\<lparr>doc_used := True\<rparr>], r)"
    by (auto simp: serve_def)
  from findOne_fresh_Some [OF f]
  have i: "i < length log" and unused: "\<not> doc_used (log ! i)"
    by (simp_all add: matches_fresh_def)
  have h: "h = doc_entropy_hex (log ! i)"
    using assms(2) GET g by (simp add: serve_def)
  have "no_used_copy log h"
    unfolding no_used_copy_def
  proof (intro ballI impI)
    fix d assume "d \<in> set log" and dh: "doc_entropy_hex d = h"
    then obtain j where j: "j < length log" and d: "d = log ! j"
      by (metis in_set_conv_nth)
    have "map doc_entropy_hex log ! j = map doc_entropy_hex log ! i"
      using i j d dh h by simp
    moreover have "j < length (map doc_entropy_hex log)" and "i < length (map doc_entropy_hex log)"
      using i j by simp_all
    ultimately have "j = i"
      using assms(1) nth_eq_iff_index_eq by blast
    then show "\<not> doc_used d" using unused d by simp
  qed
  moreover have "\<not> no_used_copy (log[i := (log ! i)\<lparr>doc_used := True\<rparr>]) h"
  proof -
    let ?d = "(log ! i)\<lparr>doc_used := True\<rparr>"
    have "?d \<in> set (log[i := ?d])"
      using i by (simp add: set_update_memI)
    moreover have "doc_entropy_hex ?d = h \<and> doc_used ?d"
      using h by simp
    ultimately show ?thesis
      unfolding no_used_copy_def by blast
  qed
  ultimately show ?thesis
    using GET g by (simp add: serve_def)
next
  case (POST bytes)
  then show ?thesis
    using assms(2) by (simp add: serve_def handle_post_def Let_def split_beta split: option.splits if_splits)
qed (use assms(2) in \<open>simp_all add: serve_def\<close>)

lemma issued_hardware_short: "length (issued_hardware resp) \<le> 1"
  by (cases resp rule: issued_hardware.cases) simp_all

lemma serve_all_issued:
  "distinct (map doc_entropy_hex log) \<Longrightarrow>
   distinct (concat (map issued_hardware (fst (serve_all reqs (log, r)))))
   \<and> (\<forall>h \<in> set (concat (map issued_hardware (fst (serve_all reqs (log, r))))).
        no_used_copy log h)"
proof (induction reqs arbitrary: log r)
  case Nil
  then show ?case by simp
next
  case (Cons a reqs)
  obtain e req where a: "a = (e, req)" by (cases a)
  obtain resp log' r' where s: "serve e req (log, r) = (resp, log', r')"
    by (cases "serve e req (log, r)")
  let ?rest = "concat (map issued_hardware (fst (serve_all reqs (log', r'))))"
  have d': "distinct (map doc_entropy_hex log')"
    using serve_distinct [OF Cons.prems, of e req r] s by simp
  from Cons.IH [OF d', of r']
  have dr: "distinct ?rest" and ur: "\<forall>h \<in> set ?rest. no_used_copy log' h"
    by simp_all
  have older: "\<forall>h \<in> set ?rest. no_used_copy log h"
    using ur no_used_copy_back [of e req log r] s by simp
  have all: "concat (map issued_hardware (fst (serve_all (a # reqs) (log, r))))
      = issued_hardware resp @ ?rest"
    by (simp add: a s split_beta)
  show ?case
  proof (cases "issued_hardware resp")
    case Nil
    then show ?thesis using dr older all by simp
  next
    case (Cons h hs)
    then have hs: "hs = []"
      using issued_hardware_short [of resp] by simp
    have "issued_hardware (fst (serve e req (log, r))) = [h]"
      using Cons hs s by simp
    from issued_marks_used [OF Cons.prems(1) this]
    have "no_used_copy log h" and "\<not> no_used_copy log' h"
      using s by simp_all
    then have "h \<notin> set ?rest" using ur by blast
    then show ?thesis
      using dr older all Cons hs \<open>no_used_copy log h\<close> by simp
  qed
qed

lemma serve_all_flags:
  "i < length log \<Longrightarrow>
   i < length (fst (snd (serve_all reqs (log, r))))
   \<and> doc_entropy_hex (fst (snd (serve_all reqs (log, r))) ! i) = doc_entropy_hex (log ! i)
   \<and> (doc_used (log ! i) \<longrightarrow> doc_used (fst (snd (serve_all reqs (log, r))) ! i))"
proof (induction reqs arbitrary: log r)
  case Nil
  then show ?case by simp
next
  case (Cons a reqs)
  obtain e req where a: "a = (e, req)" by (cases a)
  obtain resp log' r' where s: "serve e req (log, r) = (resp, log', r')"
    by (cases "serve e req (log, r)")
  from serve_flags [OF Cons.prems, of e req r] s
  have 1: "i < length log'" and 2: "doc_entropy_hex (log' ! i) = doc_entropy_hex (log ! i)"
    and 3: "doc_used (log ! i) \<longrightarrow> doc_used (log' ! i)"
    by simp_all
  from Cons.IH [OF 1, of r'] 2 3 show ?case
    by (simp add: a s split_beta)
qed

text \<open>What the call after an issuance finds: the log with the issued document marked.\<close>

lemma first_issue:
  assumes "fst (handle_get e1 r log) = Response 200 (Entropy Hardware h t)"
  shows "\<exists>i < length log. h = doc_entropy_hex (log ! i)
    \<and> handle_get e1 r log =
        (Response 200 (Entropy Hardware h t), log[i := (log ! i)\<lparr>doc_used := True\<rparr>], r)"
proof -
  from handle_get_cases [of e1 log r] assms
  obtain i where f: "findOne_fresh (toISOString (now e1 - ENTROPY_MAX_AGE_MS)) log = Some i"
    and g: "handle_get e1 r log =
            (Response 200 (Entropy Hardware (doc_entropy_hex (log ! i)) (doc_created_at (log ! i))),
             log[i := (log ! i)\<lparr>doc_used := True\<rparr>], r)"
    by auto
  from findOne_fresh_Some [OF f] have "i < length log" by simp
  then show ?thesis using assms g by auto
qed

lemma other_index:
  assumes "distinct (map doc_entropy_hex log)" and "i < length log" and "j < length log"
  shows "doc_entropy_hex (log ! j) = doc_entropy_hex (log ! i) \<longleftrightarrow> j = i"
proof -
  have "map doc_entropy_hex log ! j = map doc_entropy_hex log ! i \<longleftrightarrow> j = i"
    using assms by (intro nth_eq_iff_index_eq) simp_all
  then show ?thesis using assms by simp
qed

lemma second_issue_software:
  assumes up: "db_up e2"
    and range: "four_digit_year (now e2 - 30000)"
    and dist: "distinct (map doc_entropy_hex log)"
    and first: "fst (handle_get e1 r log) = Response 200 (Entropy Hardware h t)"
    and only: "\<forall>d \<in> set log. doc_used d \<or> doc_source d \<noteq> Hardware \<or> doc_entropy_hex d = h
        \<or> (\<exists>u. doc_created_at d = toISOString u \<and> four_digit_year u \<and> u < now e2 - 30000)"
  shows "fst (handle_get e2 (snd (snd (handle_get e1 r log)))
              (fst (snd (handle_get e1 r log))))
           = Response 200 (Entropy Software (bytesToHex (map r [0..<32]))
               (toISOString (now_reply e2)))"
proof -
  from first_issue [OF first]
  obtain i where i: "i < length log" and h: "h = doc_entropy_hex (log ! i)"
    and g: "handle_get e1 r log =
        (Response 200 (Entropy Hardware h t), log[i := (log ! i)\<lparr>doc_used := True\<rparr>], r)"
    by blast
  let ?log1 = "log[i := (log ! i)\<lparr>doc_used := True\<rparr>]"
  have "\<forall>d \<in> set ?log1. doc_used d \<or> doc_source d \<noteq> Hardware
      \<or> (\<exists>u. doc_created_at d = toISOString u \<and> four_digit_year u \<and> u < now e2 - 30000)"
  proof
    fix d assume "d \<in> set ?log1"
    then obtain j where j: "j < length log" and d: "d = ?log1 ! j"
      by (metis in_set_conv_nth length_list_update)
    show "doc_used d \<or> doc_source d \<noteq> Hardware
      \<or> (\<exists>u. doc_created_at d = toISOString u \<and> four_digit_year u \<and> u < now e2 - 30000)"
    proof (cases "j = i")
      case True
      then show ?thesis using d i by simp
    next
      case False
      then have dj: "d = log ! j" using d by simp
      have "doc_entropy_hex d \<noteq> h"
        using other_index [OF dist i j] False dj h by simp
      moreover have "d \<in> set log" using dj j by simp
      ultimately show ?thesis using only by blast
    qed
  qed
  from issuance_fallback [OF up range this, of r] show ?thesis
    by (simp add: g)
qed

lemma second_issue_other:
  assumes up: "db_up e2"
    and range: "four_digit_year (now e2 - 30000)"
    and dist: "distinct (map doc_entropy_hex log)"
    and first: "fst (handle_get e1 r log) = Response 200 (Entropy Hardware h t)"
    and other: "\<exists>d \<in> set log. \<not> doc_used d \<and> doc_source d = Hardware \<and> doc_entropy_hex d \<noteq> h
        \<and> (\<exists>u. doc_created_at d = toISOString u \<and> four_digit_year u \<and> now e2 - 30000 \<le> u)"
  shows "\<exists>d' \<in> set log. \<not> doc_used d' \<and> doc_source d' = Hardware \<and> doc_entropy_hex d' \<noteq> h
      \<and> fst (handle_get e2 (snd (snd (handle_get e1 r log))) (fst (snd (handle_get e1 r log))))
          = Response 200 (Entropy Hardware (doc_entropy_hex d') (doc_created_at d'))"
proof -
  from first_issue [OF first]
  obtain i where i: "i < length log" and h: "h = doc_entropy_hex (log ! i)"
    and g: "handle_get e1 r log =
        (Response 200 (Entropy Hardware h t), log[i := (log ! i)\<lparr>doc_used := True\<rparr>], r)"
    by blast
  let ?log1 = "log[i := (log ! i)\<lparr>doc_used := True\<rparr>]"
  let ?cutoff = "toISOString (now e2 - ENTROPY_MAX_AGE_MS)"
  from other obtain d u where d: "d \<in> set log" "\<not> doc_used d" "doc_source d = Hardware"
    "doc_entropy_hex d \<noteq> h" and u: "doc_created_at d = toISOString u" "four_digit_year u"
    "now e2 - 30000 \<le> u"
    by blast
  from d(1) obtain k where k: "k < length log" and dk: "d = log ! k"
    by (metis in_set_conv_nth)
  have "k \<noteq> i" using d(4) dk h by blast
  then have "?log1 ! k = d" using dk by simp
  moreover have "matches_fresh ?cutoff d"
    using matches_fresh_instant [OF _ u(2) u(1), of "now e2 - 30000"] range d(2,3) u(3)
    by (simp add: ENTROPY_MAX_AGE_MS_def)
  ultimately have "\<exists>x \<in> set ?log1. matches_fresh ?cutoff x"
    using k by (metis length_list_update nth_mem)
  then have "findOne_fresh ?cutoff ?log1 \<noteq> None"
    by (simp add: findOne_fresh_None)
  then obtain j where f: "findOne_fresh ?cutoff ?log1 = Some j"
    by blast
  from findOne_fresh_Some [OF f]
  have j: "j < length log" and m: "matches_fresh ?cutoff (?log1 ! j)"
    by simp_all
  have ji: "j \<noteq> i"
    using m i by (auto simp: matches_fresh_def)
  then have same: "?log1 ! j = log ! j" by simp
  have valid: "valid_time (now e2 - ENTROPY_MAX_AGE_MS)"
    using range by (simp add: four_digit_year_valid ENTROPY_MAX_AGE_MS_def)
  have "fst (handle_get e2 r ?log1)
      = Response 200 (Entropy Hardware (doc_entropy_hex (log ! j)) (doc_created_at (log ! j)))"
    using up valid f same by (simp add: handle_get_def Let_def)
  moreover have "\<not> doc_used (log ! j)" and "doc_source (log ! j) = Hardware"
    using m same by (simp_all add: matches_fresh_def)
  moreover have "doc_entropy_hex (log ! j) \<noteq> h"
    using other_index [OF dist i j] ji h by simp
  moreover have "log ! j \<in> set log" using j by simp
  ultimately show ?thesis
    using g by auto
qed

text \<open>
  C3 (as amended). In a log whose digests are distinct (every log grown from the empty
  one is), no run of requests hands out the same Hardware digest twice; a document never
  leaves the log and its \<open>used\<close> flag, once set, stays set through every request. When a
  sample has just been issued, and the clock is in the years 0 to 9999, an issuance call
  that follows it with no ingestion in between answers with Software entropy if every
  other document is used, not of source Hardware or older than the cutoff of that call;
  and if some other unused Hardware document is not older than that cutoff, the call
  issues such a document, not the one issued before.
\<close>

theorem hardware_sample_issued_once:
  "(distinct (map doc_entropy_hex log) \<longrightarrow>
      distinct (concat (map issued_hardware (fst (serve_all reqs (log, r))))))
   \<and> (i < length log \<longrightarrow>
        i < length (fst (snd (serve_all reqs (log, r))))
        \<and> (doc_used (log ! i) \<longrightarrow> doc_used (fst (snd (serve_all reqs (log, r))) ! i)))
   \<and> (db_up e2 \<and> four_digit_year (now e2 - 30000) \<and> distinct (map doc_entropy_hex log)
        \<and> fst (handle_get e1 r log) = Response 200 (Entropy Hardware h t)
        \<and> (\<forall>d \<in> set log. doc_used d \<or> doc_source d \<noteq> Hardware \<or> doc_entropy_hex d = h
              \<or> (\<exists>u. doc_created_at d = toISOString u \<and> four_digit_year u
                    \<and> u < now e2 - 30000)) \<longrightarrow>
        fst (handle_get e2 (snd (snd (handle_get e1 r log))) (fst (snd (handle_get e1 r log))))
          = Response 200 (Entropy Software (bytesToHex (map r [0..<32]))
              (toISOString (now_reply e2))))
   \<and> (db_up e2 \<and> four_digit_year (now e2 - 30000) \<and> distinct (map doc_entropy_hex log)
        \<and> fst (handle_get e1 r log) = Response 200 (Entropy Hardware h t)
        \<and> (\<exists>d \<in> set log. \<not> doc_used d \<and> doc_source d = Hardware \<and> doc_entropy_hex d \<noteq> h
              \<and> (\<exists>u. doc_created_at d = toISOString u \<and> four_digit_year u
                    \<and> now e2 - 30000 \<le> u)) \<longrightarrow>
        (\<exists>d' \<in> set log. \<not> doc_used d' \<and> doc_source d' = Hardware \<and> doc_entropy_hex d' \<noteq> h
          \<and> fst (handle_get e2 (snd (snd (handle_get e1 r log)))
                (fst (snd (handle_get e1 r log))))
              = Response 200 (Entropy Hardware (doc_entropy_hex d') (doc_created_at d'))))"
proof (intro conjI impI)
  assume "distinct (map doc_entropy_hex log)"
  then show "distinct (concat (map issued_hardware (fst (serve_all reqs (log, r)))))"
    using serve_all_issued by blast
next
  assume "i < length log"
  then show "i < length (fst (snd (serve_all reqs (log, r))))"
    using serve_all_flags by blast
next
  assume "i < length log" and "doc_used (log ! i)"
  then show "doc_used (fst (snd (serve_all reqs (log, r))) ! i)"
    using serve_all_flags by blast
next
  assume "db_up e2 \<and> four_digit_year (now e2 - 30000) \<and> distinct (map doc_entropy_hex log)
        \<and> fst (handle_get e1 r log) = Response 200 (Entropy Hardware h t)
        \<and> (\<forall>d \<in> set log. doc_used d \<or> doc_source d \<noteq> Hardware \<or> doc_entropy_hex d = h
              \<or> (\<exists>u. doc_created_at d = toISOString u \<and> four_digit_year u
                    \<and> u < now e2 - 30000))"
  then show "fst (handle_get e2 (snd (snd (handle_get e1 r log)))
        (fst (snd (handle_get e1 r log))))
      = Response 200 (Entropy Software (bytesToHex (map r [0..<32]))
          (toISOString (now_reply e2)))"
    using second_issue_software [where ?e1.0 = e1 and ?e2.0 = e2 and h = h and t = t
        and r = r and log = log]
    by blast
next
  assume "db_up e2 \<and> four_digit_year (now e2 - 30000) \<and> distinct (map doc_entropy_hex log)
        \<and> fst (handle_get e1 r log) = Response 200 (Entropy Hardware h t)
        \<and> (\<exists>d \<in> set log. \<not> doc_used d \<and> doc_source d = Hardware \<and> doc_entropy_hex d \<noteq> h
              \<and> (\<exists>u. doc_created_at d = toISOString u \<and> four_digit_year u
                    \<and> now e2 - 30000 \<le> u))"
  then show "\<exists>d' \<in> set log. \<not> doc_used d' \<and> doc_source d' = Hardware \<and> doc_entropy_hex d' \<noteq> h
      \<and> fst (handle_get e2 (snd (snd (handle_get e1 r log))) (fst (snd (handle_get e1 r log))))
          = Response 200 (Entropy Hardware (doc_entropy_hex d') (doc_created_at d'))"
    using second_issue_other [where ?e1.0 = e1 and ?e2.0 = e2 and h = h and t = t
        and r = r and log = log]
    by blast
qed

text \<open>
  Two payloads are ingested, then two issuance calls follow one another with no
  ingestion in between: the second call answers with the older Hardware sample, not
  with Software entropy.
\<close>

theorem second_issue_hardware_counterexample:
  "fst (serve_all
      [(\<lparr>now = 1000, now_reply = 1000, db_up = True\<rparr>, POST (map of_nat [1..<33])),
       (\<lparr>now = 2000, now_reply = 2000, db_up = True\<rparr>, POST (map of_nat [33..<65])),
       (\<lparr>now = 3000, now_reply = 3005, db_up = True\<rparr>, GET),
       (\<lparr>now = 4000, now_reply = 4005, db_up = True\<rparr>, GET)] ([], (\<lambda>i. of_nat i))) =
    [Response 200 (Accepted 32), Response 200 (Accepted 32),
     Response 200 (Entropy Hardware
       ''2122232425262728292a2b2c2d2e2f303132333435363738393a3b3c3d3e3f40''
       ''1970-01-01T00:00:02.000Z''),
     Response 200 (Entropy Hardware
       ''0102030405060708090a0b0c0d0e0f101112131415161718191a1b1c1d1e1f20''
       ''1970-01-01T00:00:01.000Z'')]"
  by code_simp

lemma iso_3005: "toISOString 3005 = ''1970-01-01T00:00:03.005Z''"
  by code_simp

theorem hardware_sample_issued_once_witness:
  "concat (map issued_hardware (fst (serve_all
      [(\<lparr>now = 1000, now_reply = 1000, db_up = True\<rparr>, POST (map of_nat [1..<33])),
       (\<lparr>now = 2000, now_reply = 2005, db_up = True\<rparr>, GET),
       (\<lparr>now = 3000, now_reply = 3005, db_up = True\<rparr>, GET)] ([], (\<lambda>i. of_nat i))))) =
     [''0102030405060708090a0b0c0d0e0f101112131415161718191a1b1c1d1e1f20'']
   \<and> doc_used (fst (snd (serve_all [(\<lparr>now = 3000, now_reply = 3005, db_up = True\<rparr>, GET)]
        ([\<lparr>doc_entropy_hex = ''aa'', doc_source = Hardware, doc_used = True,
           doc_created_at = ''1970-01-01T00:00:01.000Z''\<rparr>],
         (\<lambda>i. of_nat i)))) ! 0)
   \<and> fst (handle_get \<lparr>now = 3000, now_reply = 3005, db_up = True\<rparr>
        (snd (snd (handle_get \<lparr>now = 2000, now_reply = 2005, db_up = True\<rparr> (\<lambda>i. of_nat i)
           [\<lparr>doc_entropy_hex = ''aa'', doc_source = Hardware, doc_used = False,
             doc_created_at = ''1970-01-01T00:00:01.000Z''\<rparr>])))
        (fst (snd (handle_get \<lparr>now = 2000, now_reply = 2005, db_up = True\<rparr> (\<lambda>i. of_nat i)
           [\<lparr>doc_entropy_hex = ''aa'', doc_source = Hardware, doc_used = False,
             doc_created_at = ''1970-01-01T00:00:01.000Z''\<rparr>]))))
      = Response 200 (Entropy Software
          ''000102030405060708090a0b0c0d0e0f101112131415161718191a1b1c1d1e1f''
          ''1970-01-01T00:00:03.005Z'')
   \<and> fst (handle_get \<lparr>now = 4000, now_reply = 4005, db_up = True\<rparr>
        (snd (snd (handle_get \<lparr>now = 3000, now_reply = 3005, db_up = True\<rparr> (\<lambda>i. of_nat i)
           [\<lparr>doc_entropy_hex = ''aa'', doc_source = Hardware, doc_used = False,
             doc_created_at = ''1970-01-01T00:00:01.000Z''\<rparr>,
            \<lparr>doc_entropy_hex = ''bb'', doc_source = Hardware, doc_used = False,
             doc_created_at = ''1970-01-01T00:00:02.000Z''\<rparr>])))
        (fst (snd (handle_get \<lparr>now = 3000, now_reply = 3005, db_up = True\<rparr> (\<lambda>i. of_nat i)
           [\<lparr>doc_entropy_hex = ''aa'', doc_source = Hardware, doc_used = False,
             doc_created_at = ''1970-01-01T00:00:01.000Z''\<rparr>,
            \<lparr>doc_entropy_hex = ''bb'', doc_source = Hardware, doc_used = False,
             doc_created_at = ''1970-01-01T00:00:02.000Z''\<rparr>]))))
      = Response 200 (Entropy Hardware ''aa'' ''1970-01-01T00:00:01.000Z'')"
proof -
  let ?e2 = "\<lparr>now = 2000, now_reply = 2005, db_up = True\<rparr>"
  let ?e3 = "\<lparr>now = 3000, now_reply = 3005, db_up = True\<rparr>"
  let ?e4 = "\<lparr>now = 4000, now_reply = 4005, db_up = True\<rparr>"
  let ?aa = "\<lparr>doc_entropy_hex = ''aa'', doc_source = Hardware, doc_used = False,
             doc_created_at = ''1970-01-01T00:00:01.000Z''\<rparr>"
  let ?bb = "\<lparr>doc_entropy_hex = ''bb'', doc_source = Hardware, doc_used = False,
             doc_created_at = ''1970-01-01T00:00:02.000Z''\<rparr>"
  let ?r = "\<lambda>i. of_nat i :: byte"
  have run: "concat (map issued_hardware (fst (serve_all
      [(\<lparr>now = 1000, now_reply = 1000, db_up = True\<rparr>, POST (map of_nat [1..<33])),
       (?e2, GET), (?e3, GET)] ([], ?r)))) =
     [''0102030405060708090a0b0c0d0e0f101112131415161718191a1b1c1d1e1f20'']"
    by code_simp
  have flag: "doc_used (fst (snd (serve_all [(?e3, GET)] ([?aa\<lparr>doc_used := True\<rparr>], ?r))) ! 0)"
    using hardware_sample_issued_once [of "[?aa\<lparr>doc_used := True\<rparr>]" "[(?e3, GET)]" ?r 0]
    by simp
  have first: "fst (handle_get ?e2 ?r [?aa])
      = Response 200 (Entropy Hardware ''aa'' ''1970-01-01T00:00:01.000Z'')"
    by (simp add: endpoint_defs iso_cutoff_2000)
  have hex: "bytesToHex (map of_nat [0..<32]) =
      ''000102030405060708090a0b0c0d0e0f101112131415161718191a1b1c1d1e1f''"
    by code_simp
  have third: "fst (handle_get ?e3 (snd (snd (handle_get ?e2 ?r [?aa])))
        (fst (snd (handle_get ?e2 ?r [?aa]))))
      = Response 200 (Entropy Software
          ''000102030405060708090a0b0c0d0e0f101112131415161718191a1b1c1d1e1f''
          ''1970-01-01T00:00:03.005Z'')"
    using hardware_sample_issued_once [of "[?aa]" "[]" ?r 0 ?e3 ?e2 "''aa''"
        "''1970-01-01T00:00:01.000Z''"] first
    by (simp add: four_digit_year_def hex iso_3005)
  have first': "fst (handle_get ?e3 ?r [?aa, ?bb])
      = Response 200 (Entropy Hardware ''bb'' ''1970-01-01T00:00:02.000Z'')"
    by (simp add: endpoint_defs iso_cutoff_3000)
  have other: "\<exists>u. ''1970-01-01T00:00:01.000Z'' = toISOString u \<and> four_digit_year u
      \<and> 4000 - 30000 \<le> u"
    by (rule exI [of _ 1000]) (simp add: iso_1000 four_digit_year_def)
  have "\<exists>d' \<in> set [?aa, ?bb]. \<not> doc_used d' \<and> doc_source d' = Hardware
      \<and> doc_entropy_hex d' \<noteq> ''bb''
      \<and> fst (handle_get ?e4 (snd (snd (handle_get ?e3 ?r [?aa, ?bb])))
            (fst (snd (handle_get ?e3 ?r [?aa, ?bb]))))
          = Response 200 (Entropy Hardware (doc_entropy_hex d') (doc_created_at d'))"
    using hardware_sample_issued_once [of "[?aa, ?bb]" "[]" ?r 0 ?e4 ?e3 "''bb''"
        "''1970-01-01T00:00:02.000Z''"] first' other
    by (simp add: four_digit_year_def)
  then have fourth: "fst (handle_get ?e4 (snd (snd (handle_get ?e3 ?r [?aa, ?bb])))
        (fst (snd (handle_get ?e3 ?r [?aa, ?bb]))))
      = Response 200 (Entropy Hardware ''aa'' ''1970-01-01T00:00:01.000Z'')"
    by simp
  show ?thesis using run flag third fourth by simp
qed

section \<open>The client entropy cache: hits and misses\<close>

text \<open>
  C9. When a value is cached whose timestamp lies less than 25000 ms before the current
  time, \<open>fetchEntropy\<close> returns that value with \<open>age_ms\<close> set to the difference, leaves
  the cache as it is and makes no call. In every other case (nothing cached, a timestamp
  that does not parse, or an age of 25000 ms or more) it calls the issuance endpoint; the
  answer replaces the cache and is returned with \<open>age_ms = 0\<close>. Should the call fail,
  32 bytes from the local generator take the answer's place, as Software entropy stamped
  with the current time.
\<close>

theorem fetchEntropy_ttl:
  "(cachedEntropy = Some c \<and> timestamp c = Some ts \<and> date_now e - ts < 25000 \<longrightarrow>
      fetchEntropy e r cachedEntropy =
        \<lparr>returned = c\<lparr>age_ms := Some (date_now e - ts)\<rparr>, cache_after = Some c,
         live_call = False, rng_after = r\<rparr>)
   \<and> ((cachedEntropy = None
        \<or> (cachedEntropy = Some c
            \<and> (timestamp c = None \<or> (timestamp c = Some ts \<and> 25000 \<le> date_now e - ts))))
       \<and> live_response e = Some data \<longrightarrow>
      fetchEntropy e r cachedEntropy =
        \<lparr>returned = \<lparr>source = source data, entropy_hex = entropy_hex data,
                      timestamp = timestamp data, age_ms = Some 0\<rparr>,
         cache_after = Some \<lparr>source = source data, entropy_hex = entropy_hex data,
                              timestamp = timestamp data, age_ms = None\<rparr>,
         live_call = True, rng_after = r\<rparr>)
   \<and> ((cachedEntropy = None
        \<or> (cachedEntropy = Some c
            \<and> (timestamp c = None \<or> (timestamp c = Some ts \<and> 25000 \<le> date_now e - ts))))
       \<and> live_response e = None \<longrightarrow>
      fetchEntropy e r cachedEntropy =
        \<lparr>returned = \<lparr>source = Software, entropy_hex = bytesToHex (map r [0..<32]),
                      timestamp = Some (date_catch e), age_ms = Some 0\<rparr>,
         cache_after = Some \<lparr>source = Software, entropy_hex = bytesToHex (map r [0..<32]),
                              timestamp = Some (date_catch e), age_ms = Some 0\<rparr>,
         live_call = True, rng_after = (\<lambda>i. r (i + 32))\<rparr>)"
  by (auto simp: fetchEntropy_def cache_hit_def CACHE_TTL_MS_def getRandomValues_def Let_def)

theorem fetchEntropy_ttl_witness:
  "fetchEntropy \<lparr>date_now = 124999, live_response = None, date_catch = 125000\<rparr> (\<lambda>i. of_nat i)
      (Some \<lparr>source = Hardware, entropy_hex = ''ab'', timestamp = Some 100000, age_ms = None\<rparr>) =
     \<lparr>returned = \<lparr>source = Hardware, entropy_hex = ''ab'', timestamp = Some 100000,
                   age_ms = Some 24999\<rparr>,
      cache_after = Some \<lparr>source = Hardware, entropy_hex = ''ab'', timestamp = Some 100000,
                           age_ms = None\<rparr>,
      live_call = False, rng_after = (\<lambda>i. of_nat i)\<rparr>
   \<and> fetchEntropy
      \<lparr>date_now = 125000,
       live_response = Some \<lparr>source = Software, entropy_hex = ''cd'', timestamp = Some 124990\<rparr>,
       date_catch = 125001\<rparr> (\<lambda>i. of_nat i)
      (Some \<lparr>source = Hardware, entropy_hex = ''ab'', timestamp = Some 100000, age_ms = None\<rparr>) =
     \<lparr>returned = \<lparr>source = Software, entropy_hex = ''cd'', timestamp = Some 124990,
                   age_ms = Some 0\<rparr>,
      cache_after = Some \<lparr>source = Software, entropy_hex = ''cd'', timestamp = Some 124990,
                           age_ms = None\<rparr>,
      live_call = True, rng_after = (\<lambda>i. of_nat i)\<rparr>"
  using fetchEntropy_ttl [of
      "Some \<lparr>source = Hardware, entropy_hex = ''ab'', timestamp = Some 100000, age_ms = None\<rparr>"
      "\<lparr>source = Hardware, entropy_hex = ''ab'', timestamp = Some 100000, age_ms = None\<rparr>"
      100000 "\<lparr>date_now = 124999, live_response = None, date_catch = 125000\<rparr>" "\<lambda>i. of_nat i"]
    fetchEntropy_ttl [of
      "Some \<lparr>source = Hardware, entropy_hex = ''ab'', timestamp = Some 100000, age_ms = None\<rparr>"
      "\<lparr>source = Hardware, entropy_hex = ''ab'', timestamp = Some 100000, age_ms = None\<rparr>"
      100000
      "\<lparr>date_now = 125000,
        live_response = Some \<lparr>source = Software, entropy_hex = ''cd'', timestamp = Some 124990\<rparr>,
        date_catch = 125001\<rparr>" "\<lambda>i. of_nat i"
      "\<lparr>source = Software, entropy_hex = ''cd'', timestamp = Some 124990\<rparr>"]
  by simp

section \<open>Base64 decoding undoes encoding\<close>

lemma index_of_nth: "distinct xs \<Longrightarrow> i < length xs \<Longrightarrow> index_of (xs ! i) xs = Some i"
proof (induction xs arbitrary: i)
  case Nil then show ?case by simp
next
  case (Cons x xs)
  show ?case
  proof (cases i)
    case 0 then show ?thesis by simp
  next
    case (Suc j)
    with Cons.prems have "xs ! j \<in> set xs" by simp
    with Cons.prems have "xs ! j \<noteq> x" by auto
    with Cons Suc show ?thesis by simp
  qed
qed

lemma distinct_b64_alphabet: "distinct b64_alphabet"
  by (simp add: b64_alphabet_def)

lemma length_b64_alphabet: "length b64_alphabet = 64"
  by (simp add: b64_alphabet_def)

lemma b64_index_char: "i < 64 \<Longrightarrow> b64_index (b64_char i) = Some i"
  by (simp add: b64_index_def b64_char_def index_of_nth distinct_b64_alphabet length_b64_alphabet)

lemma b64_char_in: "i < 64 \<Longrightarrow> b64_char i \<in> set b64_alphabet"
  by (simp add: b64_char_def length_b64_alphabet)

lemma b64_char_not_pad: "i < 64 \<Longrightarrow> b64_char i \<noteq> CHR ''=''"
  using b64_char_in [of i] by (auto simp: b64_alphabet_def)

lemma b64_char_not_ws: "i < 64 \<Longrightarrow> \<not> ascii_whitespace (b64_char i)"
  using b64_char_in [of i] by (auto simp: b64_alphabet_def ascii_whitespace_def)

lemma split2:
  assumes "y < 256"
  shows "(x * 256 + y) div 256 = x" and "(x * 256 + y) mod 256 = (y::nat)"
  using assms by simp_all

lemma split3:
  assumes "y < 256" "z < 256"
  shows "(x * 65536 + y * 256 + z) div 65536 = x"
    and "(x * 65536 + y * 256 + z) div 256 mod 256 = y"
    and "(x * 65536 + y * 256 + z) mod 256 = (z::nat)"
proof -
  have small: "y * 256 + z < 65536" using assms by simp
  have "(x * 65536 + (y * 256 + z)) div 65536 = x"
    using small by simp
  then show "(x * 65536 + y * 256 + z) div 65536 = x"
    by (simp add: add.assoc)
  have "x * 65536 + y * 256 + z = (x * 256 + y) * 256 + z"
    by simp
  then have "(x * 65536 + y * 256 + z) div 256 = x * 256 + y"
    using assms(2) split2 (1) [of z "x * 256 + y"] by simp
  then show "(x * 65536 + y * 256 + z) div 256 mod 256 = y"
    using assms(1) by simp
  show "(x * 65536 + y * 256 + z) mod 256 = z"
    using assms(2) by (simp add: mod_add_left_eq [symmetric] flip: mod_add_eq)
qed

lemma join3:
  "((x div 4 * 64 + (x mod 4 * 16 + y div 16)) * 64 + (y mod 16 * 4 + z div 64)) * 64 + z mod 64
   = x * 65536 + y * 256 + (z::nat)"
proof -
  define qx rx qy ry qz rz where "qx = x div 4" and "rx = x mod 4" and "qy = y div 16"
    and "ry = y mod 16" and "qz = z div 64" and "rz = z mod 64"
  have x: "x = qx * 4 + rx" and y: "y = qy * 16 + ry" and z: "z = qz * 64 + rz"
    by (simp_all add: qx_def rx_def qy_def ry_def qz_def rz_def)
  have "((qx * 64 + (rx * 16 + qy)) * 64 + (ry * 4 + qz)) * 64 + rz
      = (qx * 4 + rx) * 65536 + (qy * 16 + ry) * 256 + (qz * 64 + rz)"
    by (simp add: algebra_simps)
  then show ?thesis
    unfolding x [symmetric] y [symmetric] z [symmetric]
    by (simp add: qx_def rx_def qy_def ry_def qz_def rz_def)
qed

lemma join2:
  "((x div 4 * 64 + (x mod 4 * 16 + y div 16)) * 64 + y mod 16 * 4) div 4 = x * 256 + (y::nat)"
proof -
  define qx rx qy ry where "qx = x div 4" and "rx = x mod 4" and "qy = y div 16" and "ry = y mod 16"
  have x: "x = qx * 4 + rx" and y: "y = qy * 16 + ry"
    by (simp_all add: qx_def rx_def qy_def ry_def)
  have "((qx * 64 + (rx * 16 + qy)) * 64 + ry * 4)
      = ((qx * 4 + rx) * 256 + (qy * 16 + ry)) * 4"
    by (simp add: algebra_simps)
  then have "((qx * 64 + (rx * 16 + qy)) * 64 + ry * 4) div 4 = (qx * 4 + rx) * 256 + (qy * 16 + ry)"
    by simp
  then show ?thesis
    unfolding x [symmetric] y [symmetric]
    by (simp add: qx_def rx_def qy_def ry_def)
qed

lemma join1: "(x div 4 * 64 + x mod 4 * 16) div 16 = (x::nat)"
proof -
  define qx rx where "qx = x div 4" and "rx = x mod 4"
  have x: "x = qx * 4 + rx" by (simp add: qx_def rx_def)
  have "qx * 64 + rx * 16 = (qx * 4 + rx) * 16" by (simp add: algebra_simps)
  then have "(qx * 64 + rx * 16) div 16 = qx * 4 + rx" by simp
  then show ?thesis unfolding x [symmetric] by (simp add: qx_def rx_def)
qed

lemma sextet_bounds:
  "x < 256 \<Longrightarrow> x div 4 < (64::nat)"
  "y < 256 \<Longrightarrow> x mod 4 * 16 + y div 16 < (64::nat)"
  "z < 256 \<Longrightarrow> y mod 16 * 4 + z div 64 < (64::nat)"
  "z mod 64 < (64::nat)"
  "x mod 4 * 16 < (64::nat)"
  "y mod 16 * 4 < (64::nat)"
  by arith+

lemma sextets_bound: "\<forall>v \<in> set (sextets s). v < 64"
  by (induction s rule: sextets.induct) (simp_all add: Let_def sextet_bounds)

lemma btoa_decomp: "btoa s = map b64_char (sextets s) @ padding s"
proof (induction s rule: btoa.induct)
  case (4 a b c rest)
  have "padding (a # b # c # rest) = padding rest"
    by (simp add: padding_def)
  with 4 show ?case by (simp add: Let_def)
qed (simp_all add: padding_def Let_def numeral_2_eq_2)

lemma length_sextets:
  "length (sextets s) mod 4 = (case length s mod 3 of 0 \<Rightarrow> 0 | Suc 0 \<Rightarrow> 2 | _ \<Rightarrow> 3)"
proof (induction s rule: sextets.induct)
  case (4 a b c rest)
  have "length (a # b # c # rest) mod 3 = length rest mod 3"
    by simp
  moreover have "length (sextets (a # b # c # rest)) mod 4 = length (sextets rest) mod 4"
    by (simp add: Let_def)
  ultimately show ?case using 4 by simp
qed (simp_all add: Let_def)

lemma decode_sextets_sextets: "decode_sextets (sextets s) = map of_char s"
proof (induction s rule: sextets.induct)
  case 1
  then show ?case by simp
next
  case (2 a)
  have "decode_sextets [x div 4, x mod 4 * 16] = [x]" for x
    unfolding decode_sextets.simps join1 ..
  then show ?case by (simp add: Let_def)
next
  case (3 a b)
  have "decode_sextets [x div 4, x mod 4 * 16 + y div 16, y mod 16 * 4] = [x, y]"
    if "y < 256" for x y
    unfolding decode_sextets.simps Let_def join2 using that by (simp add: split2)
  then show ?case by (simp add: Let_def)
next
  case (4 a b c rest)
  have "decode_sextets ([x div 4, x mod 4 * 16 + y div 16, y mod 16 * 4 + z div 64, z mod 64] @ vs)
      = [x, y, z] @ decode_sextets vs"
    if "y < 256" and "z < 256" for x y z vs
    unfolding append.simps decode_sextets.simps Let_def join3 using that by (simp add: split3)
  with 4 show ?case by (simp add: Let_def del: append.simps)
qed

lemma those_index_char:
  "\<forall>v \<in> set vs. v < 64 \<Longrightarrow> those (map b64_index (map b64_char vs)) = Some vs"
  by (induction vs) (simp_all add: b64_index_char)

lemma filter_ws_chars:
  "\<forall>v \<in> set vs. v < 64 \<Longrightarrow> filter (\<lambda>c. \<not> ascii_whitespace c) (map b64_char vs) = map b64_char vs"
  by (induction vs) (simp_all add: b64_char_not_ws)

lemma filter_ws_padding: "filter (\<lambda>c. \<not> ascii_whitespace c) (padding s) = padding s"
  by (simp add: padding_def ascii_whitespace_def)

lemma last_chars_not_pad:
  "\<forall>v \<in> set vs. v < 64 \<Longrightarrow> vs \<noteq> [] \<Longrightarrow> last (map b64_char vs) \<noteq> CHR ''=''"
  by (simp add: last_map b64_char_not_pad)

lemma strip_none: "cs = [] \<or> last cs \<noteq> CHR ''='' \<Longrightarrow> strip_padding cs = cs"
  by (auto simp: strip_padding_def)

lemma strip_one:
  "cs \<noteq> [] \<Longrightarrow> last cs \<noteq> CHR ''='' \<Longrightarrow> length (cs @ ''='') mod 4 = 0 \<Longrightarrow>
   strip_padding (cs @ ''='') = cs"
  by (simp add: strip_padding_def butlast_append)

lemma strip_two:
  "length (cs @ ''=='') mod 4 = 0 \<Longrightarrow> strip_padding (cs @ ''=='') = cs"
  by (simp add: strip_padding_def butlast_append)

lemma strip_padding_btoa:
  "strip_padding (map b64_char (sextets s) @ padding s) = map b64_char (sextets s)"
proof -
  let ?cs = "map b64_char (sextets s)"
  have len: "length (sextets s) mod 4 = (case length s mod 3 of 0 \<Rightarrow> 0 | Suc 0 \<Rightarrow> 2 | _ \<Rightarrow> 3)"
    by (rule length_sextets)
  have m: "length s mod 3 = 0 \<or> length s mod 3 = 1 \<or> length s mod 3 = 2"
    by presburger
  have nolast: "sextets s \<noteq> [] \<Longrightarrow> last ?cs \<noteq> CHR ''=''"
    using last_chars_not_pad [OF sextets_bound] by blast
  from m show ?thesis
  proof (elim disjE)
    assume 0: "length s mod 3 = 0"
    then have "padding s = []" by (simp add: padding_def)
    then show ?thesis
      using nolast strip_none [of ?cs] by auto
  next
    assume 1: "length s mod 3 = 1"
    then have p: "padding s = ''==''" by (simp add: padding_def numeral_2_eq_2)
    have "length (sextets s) mod 4 = 2" using len 1 by simp
    then have "length (?cs @ ''=='') mod 4 = 0" by simp presburger
    then show ?thesis
      unfolding p by (rule strip_two)
  next
    assume 2: "length s mod 3 = 2"
    then have p: "padding s = ''=''" by (simp add: padding_def)
    have l3: "length (sextets s) mod 4 = 3" using len 2 by (simp add: numeral_2_eq_2)
    then have ne: "sextets s \<noteq> []" by auto
    have "length (?cs @ ''='') mod 4 = 0" using l3 by simp presburger
    then show ?thesis
      unfolding p using nolast [OF ne] ne by (simp add: strip_one)
  qed
qed

lemma length_chars_not_1: "length (map b64_char (sextets s)) mod 4 \<noteq> 1"
  using length_sextets [of s] by (auto split: nat.splits)

lemma atob_btoa: "atob (btoa s) = Inr s"
proof -
  let ?cs = "map b64_char (sextets s)"
  have "filter (\<lambda>c. \<not> ascii_whitespace c) (btoa s) = btoa s"
    by (simp add: btoa_decomp filter_ws_chars [OF sextets_bound] filter_ws_padding)
  moreover have "strip_padding (btoa s) = ?cs"
    by (simp add: btoa_decomp strip_padding_btoa)
  moreover have "those (map b64_index ?cs) = Some (sextets s)"
    by (rule those_index_char [OF sextets_bound])
  moreover have "map char_of (map (of_char :: char \<Rightarrow> nat) s) = s"
    by (simp add: comp_def)
  ultimately show ?thesis
    using length_chars_not_1 [of s]
    by (simp add: atob_def decode_sextets_sextets del: map_map)
qed

lemma atob_bytes: "base64ToBytes (btoa (fromCharCode bytes)) = Inr bytes"
proof -
  have "unat b mod 256 = unat b" for b :: byte
    using unsigned_less [of b, where ?'a = nat] by simp
  then have "map (\<lambda>c. of_nat (of_char c)) (map (\<lambda>b. char_of (unat b)) bytes) = bytes"
    by (induction bytes) simp_all
  then show ?thesis
    by (simp add: base64ToBytes_def fromCharCode_def atob_btoa del: map_map)
qed

text \<open>The loop of \<open>bufferToBase64\<close> builds the same binary string, whatever the length.\<close>

lemma foldl_fromCharCode:
  "foldl (\<lambda>binary b. binary @ fromCharCode [b]) acc buffer = acc @ fromCharCode buffer"
  by (induction buffer arbitrary: acc) (simp_all add: fromCharCode_def)

lemma bufferToBase64_btoa: "bufferToBase64 buffer = btoa (fromCharCode buffer)"
  by (simp add: bufferToBase64_def foldl_fromCharCode)

lemma base64ToBuffer_base64ToBytes: "base64ToBuffer base64 = base64ToBytes base64"
proof -
  have "map (\<lambda>i. (of_nat (of_char (xs ! i)) :: byte)) [0..<length xs]
      = map (\<lambda>c. of_nat (of_char c)) xs" for xs :: string
    by (rule nth_equalityI) simp_all
  then show ?thesis
    by (simp add: base64ToBuffer_def base64ToBytes_def split: sum.splits)
qed

text \<open>
  C10. \<open>base64ToBytes\<close> gives back the array that \<open>bytesToBase64\<close> encoded as long as the
  array has no more elements than the engine takes arguments in a call; a longer array
  is not encoded at all, \<open>bytesToBase64\<close> throws a \<open>RangeError\<close>. The sibling pair
  \<open>bufferToBase64\<close> and \<open>base64ToBuffer\<close> round-trips every array.
\<close>

theorem base64_roundtrip_limit:
  "(length bytes \<le> max_args \<longrightarrow>
      (\<exists>b64. bytesToBase64 max_args bytes = Inr b64 \<and> base64ToBytes b64 = Inr bytes))
   \<and> (max_args < length bytes \<longrightarrow> bytesToBase64 max_args bytes = Inl RangeError)
   \<and> base64ToBuffer (bufferToBase64 bytes) = Inr bytes"
  by (simp add: bytesToBase64_def atob_bytes bufferToBase64_btoa base64ToBuffer_base64ToBytes)

theorem base64_roundtrip_limit_witness:
  "bytesToBase64 5 [0x4d, 0x61, 0x6e, 0xff, 0x00] = Inr ''TWFu/wA=''
   \<and> base64ToBytes ''TWFu/wA='' = Inr [0x4d, 0x61, 0x6e, 0xff, 0x00]
   \<and> bytesToBase64 4 [0x4d, 0x61, 0x6e, 0xff, 0x00] = Inl RangeError
   \<and> base64ToBuffer (bufferToBase64 [0x4d, 0x61, 0x6e, 0xff, 0x00])
       = Inr [0x4d, 0x61, 0x6e, 0xff, 0x00]"
proof -
  have enc: "bytesToBase64 5 [0x4d, 0x61, 0x6e, 0xff, 0x00] = Inr ''TWFu/wA=''"
    by code_simp
  show ?thesis
    using base64_roundtrip_limit [of "[0x4d, 0x61, 0x6e, 0xff, 0x00]" 5]
      base64_roundtrip_limit [of "[0x4d, 0x61, 0x6e, 0xff, 0x00]" 4]
    unfolding enc by simp
qed

section \<open>Decoding the UTF-8 form of a string\<close>

lemma mask2: "q < 32 \<Longrightarrow> (192 + q) mod 32 = (q::nat)"
  by (subst mod_add_eq [symmetric]) simp

lemma mask3: "q < 16 \<Longrightarrow> (224 + q) mod 16 = (q::nat)"
  by (subst mod_add_eq [symmetric]) simp

lemma mask4: "q < 8 \<Longrightarrow> (240 + q) mod 8 = (q::nat)"
  by (subst mod_add_eq [symmetric]) simp

lemma mask_cont: "m < 64 \<Longrightarrow> (128 + m) mod 64 = (m::nat)"
  by (subst mod_add_eq [symmetric]) simp

lemma utf8_step_init: "bytes_needed st = 0 \<Longrightarrow> utf8_step st b = utf8_lead b"
  by (simp add: utf8_step_def)

text \<open>A continuation byte inside its boundaries, before the last one and as the last one.\<close>

lemma utf8_step_cont:
  assumes "m < 64" and "lower_boundary st \<le> 128 + m" and "128 + m \<le> upper_boundary st"
    and "0 < bytes_needed st"
  shows "utf8_step st (128 + m) =
     (if bytes_seen st + 1 \<noteq> bytes_needed st
      then ([], st\<lparr>code_point := code_point st * 64 + m, bytes_seen := bytes_seen st + 1,
                  lower_boundary := 0x80, upper_boundary := 0xBF\<rparr>)
      else ([code_point st * 64 + m], utf8_init))"
  using assms by (simp add: utf8_step_def mask_cont Let_def)

lemma decode_plain:
  "b < 128 \<Longrightarrow> utf8_decode utf8_init (b # bs) = b # utf8_decode utf8_init bs"
  by (simp add: utf8_step_init utf8_lead_def utf8_init_def)

lemma decode_lead2:
  "2 \<le> q \<Longrightarrow> q < 32 \<Longrightarrow>
   utf8_decode utf8_init ((192 + q) # bs) =
   utf8_decode \<lparr>code_point = q, bytes_needed = 1, bytes_seen = 0,
                lower_boundary = 0x80, upper_boundary = 0xBF\<rparr> bs"
  by (simp add: utf8_step_init utf8_lead_def mask2 utf8_init_def)

lemma decode_lead3:
  "a < 16 \<Longrightarrow>
   utf8_decode utf8_init ((224 + a) # bs) =
   utf8_decode \<lparr>code_point = a, bytes_needed = 2, bytes_seen = 0,
                lower_boundary = (if a = 0 then 0xA0 else 0x80),
                upper_boundary = (if a = 13 then 0x9F else 0xBF)\<rparr> bs"
  by (simp add: utf8_step_init utf8_lead_def mask3 utf8_init_def)

lemma decode_lead4:
  "a < 5 \<Longrightarrow>
   utf8_decode utf8_init ((240 + a) # bs) =
   utf8_decode \<lparr>code_point = a, bytes_needed = 3, bytes_seen = 0,
                lower_boundary = (if a = 0 then 0x90 else 0x80),
                upper_boundary = (if a = 4 then 0x8F else 0xBF)\<rparr> bs"
  by (simp add: utf8_step_init utf8_lead_def mask4 utf8_init_def)

lemma decode_cont_more:
  assumes "m < 64" and "lo \<le> 128 + m" and "128 + m \<le> hi" and "seen + 1 \<noteq> needed"
    and "0 < needed"
  shows "utf8_decode \<lparr>code_point = cp, bytes_needed = needed, bytes_seen = seen,
                      lower_boundary = lo, upper_boundary = hi\<rparr> ((128 + m) # bs) =
         utf8_decode \<lparr>code_point = cp * 64 + m, bytes_needed = needed, bytes_seen = seen + 1,
                      lower_boundary = 0x80, upper_boundary = 0xBF\<rparr> bs"
  using assms by (simp add: utf8_step_def mask_cont Let_def)

lemma decode_cont_last:
  assumes "m < 64" and "lo \<le> 128 + m" and "128 + m \<le> hi" and "seen + 1 = needed"
  shows "utf8_decode \<lparr>code_point = cp, bytes_needed = needed, bytes_seen = seen,
                      lower_boundary = lo, upper_boundary = hi\<rparr> ((128 + m) # bs) =
         (cp * 64 + m) # utf8_decode utf8_init bs"
  using assms by (auto simp: utf8_step_def mask_cont Let_def)

lemma dec1:
  assumes "c < 0x80"
  shows "utf8_decode utf8_init (utf8_bytes c @ bs) = c # utf8_decode utf8_init bs"
  using assms by (simp add: utf8_bytes_def decode_plain del: utf8_decode.simps)

lemma dec2:
  assumes "0x80 \<le> c" "c < 0x800"
  shows "utf8_decode utf8_init (utf8_bytes c @ bs) = c # utf8_decode utf8_init bs"
proof -
  define q m where "q = c div 64" and "m = c mod 64"
  have c: "c = q * 64 + m" and m: "m < 64" by (simp_all add: q_def m_def)
  have q: "2 \<le> q" "q < 32" using assms c m by linarith+
  have "utf8_bytes c = [192 + q, 128 + m]"
    using assms by (simp add: utf8_bytes_def q_def m_def)
  then have "utf8_decode utf8_init (utf8_bytes c @ bs) =
      utf8_decode utf8_init ((192 + q) # (128 + m) # bs)"
    by simp
  also have "\<dots> = utf8_decode \<lparr>code_point = q, bytes_needed = 1, bytes_seen = 0,
                lower_boundary = 0x80, upper_boundary = 0xBF\<rparr> ((128 + m) # bs)"
    using q by (rule decode_lead2)
  also have "\<dots> = (q * 64 + m) # utf8_decode utf8_init bs"
    using m by (intro decode_cont_last) simp_all
  finally show ?thesis using c by simp
qed

lemma dec3:
  assumes "0x800 \<le> c" "c < 0x10000" "c < 0xD800 \<or> 0xDFFF < c"
  shows "utf8_decode utf8_init (utf8_bytes c @ bs) = c # utf8_decode utf8_init bs"
proof -
  define q m a b where "q = c div 64" and "m = c mod 64" and "a = q div 64" and "b = q mod 64"
  have c: "c = q * 64 + m" and m: "m < 64" by (simp_all add: q_def m_def)
  have qq: "q = a * 64 + b" and bb: "b < 64" by (simp_all add: a_def b_def)
  have a: "a < 16" using assms c m qq bb by linarith
  have lo: "a = 0 \<Longrightarrow> 32 \<le> b" using assms c m qq bb by linarith
  have hi: "a = 13 \<Longrightarrow> b < 32" using assms c m qq bb by linarith
  have d: "c div 4096 = a"
    by (simp add: a_def q_def div_mult2_eq [symmetric])
  have "utf8_bytes c = [224 + a, 128 + b, 128 + m]"
    using assms by (simp add: utf8_bytes_def d) (simp add: b_def q_def m_def)
  then have "utf8_decode utf8_init (utf8_bytes c @ bs) =
      utf8_decode utf8_init ((224 + a) # (128 + b) # (128 + m) # bs)"
    by simp
  also have "\<dots> = utf8_decode \<lparr>code_point = a, bytes_needed = 2, bytes_seen = 0,
                lower_boundary = (if a = 0 then 0xA0 else 0x80),
                upper_boundary = (if a = 13 then 0x9F else 0xBF)\<rparr> ((128 + b) # (128 + m) # bs)"
    using a by (rule decode_lead3)
  also have "\<dots> = utf8_decode \<lparr>code_point = a * 64 + b, bytes_needed = 2, bytes_seen = 0 + 1,
                lower_boundary = 0x80, upper_boundary = 0xBF\<rparr> ((128 + m) # bs)"
    using bb lo hi by (intro decode_cont_more) auto
  also have "\<dots> = ((a * 64 + b) * 64 + m) # utf8_decode utf8_init bs"
    using m by (intro decode_cont_last) simp_all
  finally show ?thesis using c qq by simp
qed

lemma dec4:
  assumes "0x10000 \<le> c" "c < 0x110000"
  shows "utf8_decode utf8_init (utf8_bytes c @ bs) = c # utf8_decode utf8_init bs"
proof -
  define q m p b a a2 where "q = c div 64" and "m = c mod 64" and "p = q div 64"
    and "b = q mod 64" and "a = p div 64" and "a2 = p mod 64"
  have c: "c = q * 64 + m" and m: "m < 64" by (simp_all add: q_def m_def)
  have qq: "q = p * 64 + b" and bb: "b < 64" by (simp_all add: p_def b_def)
  have pp: "p = a * 64 + a2" and aa: "a2 < 64" by (simp_all add: a_def a2_def)
  have a: "a < 5" using assms c m qq bb pp aa by linarith
  have lo: "a = 0 \<Longrightarrow> 16 \<le> a2" using assms c m qq bb pp aa by linarith
  have hi: "a = 4 \<Longrightarrow> a2 < 16" using assms c m qq bb pp aa by linarith
  have d1: "c div 262144 = a"
    by (simp add: a_def p_def q_def div_mult2_eq [symmetric])
  have d2: "c div 4096 = p"
    by (simp add: p_def q_def div_mult2_eq [symmetric])
  have "utf8_bytes c = [240 + a, 128 + a2, 128 + b, 128 + m]"
    using assms by (simp add: utf8_bytes_def d1 d2) (simp add: a2_def b_def q_def m_def)
  then have "utf8_decode utf8_init (utf8_bytes c @ bs) =
      utf8_decode utf8_init ((240 + a) # (128 + a2) # (128 + b) # (128 + m) # bs)"
    by simp
  also have "\<dots> = utf8_decode \<lparr>code_point = a, bytes_needed = 3, bytes_seen = 0,
                lower_boundary = (if a = 0 then 0x90 else 0x80),
                upper_boundary = (if a = 4 then 0x8F else 0xBF)\<rparr>
                ((128 + a2) # (128 + b) # (128 + m) # bs)"
    using a by (rule decode_lead4)
  also have "\<dots> = utf8_decode \<lparr>code_point = a * 64 + a2, bytes_needed = 3, bytes_seen = 0 + 1,
                lower_boundary = 0x80, upper_boundary = 0xBF\<rparr> ((128 + b) # (128 + m) # bs)"
    using aa lo hi by (intro decode_cont_more) auto
  also have "\<dots> = utf8_decode \<lparr>code_point = (a * 64 + a2) * 64 + b, bytes_needed = 3,
                bytes_seen = 0 + 1 + 1,
                lower_boundary = 0x80, upper_boundary = 0xBF\<rparr> ((128 + m) # bs)"
    using bb by (intro decode_cont_more) simp_all
  also have "\<dots> = (((a * 64 + a2) * 64 + b) * 64 + m) # utf8_decode utf8_init bs"
    using m by (intro decode_cont_last) simp_all
  finally show ?thesis using c qq pp by simp
qed

lemma utf8_decode_bytes:
  assumes "scalar c"
  shows "utf8_decode utf8_init (utf8_bytes c @ bs) = c # utf8_decode utf8_init bs"
proof -
  consider "c < 0x80" | "0x80 \<le> c" "c < 0x800" | "0x800 \<le> c" "c < 0x10000"
    | "0x10000 \<le> c" "c < 0x110000"
    using assms unfolding scalar_def by linarith
  then show ?thesis
  proof cases
    case 1 then show ?thesis by (rule dec1)
  next
    case 2 then show ?thesis by (rule dec2)
  next
    case 3 then show ?thesis using assms dec3 by (simp add: scalar_def)
  next
    case 4 then show ?thesis by (rule dec4)
  qed
qed

lemma utf8_decode_concat:
  "\<forall>c \<in> set cs. scalar c \<Longrightarrow> utf8_decode utf8_init (concat (map utf8_bytes cs)) = cs"
proof (induction cs)
  case Nil
  then show ?case by (simp add: utf8_init_def)
next
  case (Cons c cs)
  then show ?case
    using utf8_decode_bytes [of c "concat (map utf8_bytes cs)"] by simp
qed

lemma utf8_bytes_bound:
  assumes "scalar c"
  shows "\<forall>b \<in> set (utf8_bytes c). b < 256"
proof -
  have m: "c mod 64 < 64" "c div 64 mod 64 < 64" "c div 4096 mod 64 < 64"
    by simp_all
  have 2: "c < 0x800 \<Longrightarrow> c div 64 < 32"
    using less_mult_imp_div_less [of c 32 64] by simp
  have 3: "c < 0x10000 \<Longrightarrow> c div 4096 < 16"
    using less_mult_imp_div_less [of c 16 4096] by simp
  have 4: "c div 262144 < 5"
    using assms less_mult_imp_div_less [of c 5 262144] by (simp add: scalar_def)
  show ?thesis
    using m 2 3 4 by (auto simp: utf8_bytes_def)
qed

lemma unat_of_nat_byte: "b < 256 \<Longrightarrow> unat (of_nat b :: byte) = b"
  by (simp add: unat_of_nat)

lemma unat_encode:
  "\<forall>c \<in> set cs. scalar c \<Longrightarrow>
   map unat (map of_nat (concat (map utf8_bytes cs)) :: byte list) = concat (map utf8_bytes cs)"
proof (induction cs)
  case Nil
  then show ?case by simp
next
  case (Cons c cs)
  have "map unat (map of_nat (utf8_bytes c) :: byte list) = utf8_bytes c"
    using utf8_bytes_bound [of c] Cons.prems by (simp add: map_idI unat_of_nat_byte)
  with Cons show ?case by simp
qed

lemma unat_unit: "unat (u :: 16 word) < 65536"
  using unsigned_less [of u, where ?'a = nat] by simp

lemma to_scalars_scalar: "\<forall>c \<in> set (to_scalars s). scalar c"
proof (induction s rule: to_scalars.induct)
  case 1
  then show ?case by simp
next
  case (2 u)
  then show ?case
    using unat_unit [of u] by (auto simp: scalar_def is_lead_def is_trail_def)
next
  case (3 u v rest)
  have "is_lead u \<Longrightarrow> is_trail v \<Longrightarrow>
      scalar (0x10000 + (unat u - 0xD800) * 0x400 + (unat v - 0xDC00))"
    by (auto simp: scalar_def is_lead_def is_trail_def)
  moreover have "\<not> is_lead u \<Longrightarrow> \<not> is_trail u \<Longrightarrow> scalar (unat u)"
    using unat_unit [of u] by (auto simp: scalar_def is_lead_def is_trail_def)
  moreover have "scalar 0xFFFD"
    by (simp add: scalar_def)
  ultimately show ?case using 3 by auto
qed

lemma decode_encode_scalars:
  "TextDecoder_decode (TextEncoder_encode s) = concat (map code_units (strip_bom (to_scalars s)))"
  by (simp add: TextDecoder_decode_def TextEncoder_encode_def unat_encode utf8_decode_concat
      to_scalars_scalar del: map_map)

lemma code_units_plain:
  "\<not> is_lead u \<Longrightarrow> \<not> is_trail u \<Longrightarrow> code_units (unat u) = [u]"
  using unat_unit [of u] by (simp add: code_units_def)

lemma code_units_pair:
  assumes "is_lead u" and "is_trail v"
  shows "code_units (0x10000 + (unat u - 0xD800) * 0x400 + (unat v - 0xDC00)) = [u, v]"
proof -
  define x y where "x = unat u - 0xD800" and "y = unat v - 0xDC00"
  have x: "unat u = 0xD800 + x" and y: "unat v = 0xDC00 + y" and yb: "y < 0x400"
    using assms by (auto simp: x_def y_def is_lead_def is_trail_def)
  have "(x * 0x400 + y) div 0x400 = x" and "(x * 0x400 + y) mod 0x400 = y"
    using yb by simp_all
  then have "code_units (0x10000 + x * 0x400 + y) = [of_nat (0xD800 + x), of_nat (0xDC00 + y)]"
    by (simp add: code_units_def)
  also have "\<dots> = [u, v]"
    unfolding x [symmetric] y [symmetric] by simp
  finally show ?thesis by (simp add: x_def y_def)
qed

lemma well_formed_units:
  "isWellFormed s \<Longrightarrow> concat (map code_units (to_scalars s)) = s"
proof (induction s rule: to_scalars.induct)
  case 1
  then show ?case by simp
next
  case (2 u)
  then show ?case by (simp add: code_units_plain)
next
  case (3 u v rest)
  show ?case
  proof (cases "is_lead u")
    case True
    then have "is_trail v" and "isWellFormed rest" using "3.prems" by simp_all
    then show ?thesis
      using True "3.IH"(1) by (simp add: code_units_pair)
  next
    case False
    then have "\<not> is_trail u" and "isWellFormed (v # rest)" using "3.prems" by simp_all
    then show ?thesis
      using False "3.IH"(3) by (simp add: code_units_plain)
  qed
qed

lemma unit_not_bom: "u \<noteq> 0xFEFF \<Longrightarrow> unat (u :: 16 word) \<noteq> 0xFEFF"
proof
  assume "u \<noteq> 0xFEFF" and "unat u = 0xFEFF"
  then have "of_nat (unat u) = (of_nat 0xFEFF :: 16 word)" by simp
  then have "u = 0xFEFF" by simp
  with \<open>u \<noteq> 0xFEFF\<close> show False by simp
qed

lemma first_scalar_not_bom:
  assumes "take 1 s \<noteq> [0xFEFF]"
  shows "take 1 (to_scalars s) \<noteq> [0xFEFF]"
proof (cases s rule: to_scalars.cases)
  case 1
  then show ?thesis by simp
next
  case (2 u)
  then have "u \<noteq> 0xFEFF" using assms by simp
  then have "unat u \<noteq> 0xFEFF"
    by (rule unit_not_bom)
  then show ?thesis using 2 by simp
next
  case (3 u v rest)
  then have "u \<noteq> 0xFEFF" using assms by simp
  then have "unat u \<noteq> 0xFEFF"
    by (rule unit_not_bom)
  then show ?thesis using 3 by (simp add: is_lead_def)
qed

lemma text_roundtrip:
  assumes "isWellFormed s" and "take 1 s \<noteq> [0xFEFF]"
  shows "TextDecoder_decode (TextEncoder_encode s) = s"
  using first_scalar_not_bom [OF assms(2)] well_formed_units [OF assms(1)]
  by (simp add: decode_encode_scalars strip_bom_def)

section \<open>Key derivation\<close>

lemma deriveKey_result:
  "deriveKey W r entropyHex salt =
     (Inr (hkdf_sha256 W (hexToBytes entropyHex)
             (case salt of Some s \<Rightarrow> s | None \<Rightarrow> map r [0..<32]) HKDF_INFO,
           (case salt of Some s \<Rightarrow> s | None \<Rightarrow> map r [0..<32])),
      (case salt of Some s \<Rightarrow> r | None \<Rightarrow> (\<lambda>i. r (i + 32))))"
  by (cases salt) (simp_all add: deriveKey_def getRandomValues_def)

lemma length_hexToBytes: "length (hexToBytes hex) = length hex div 2"
  by (simp add: hexToBytes_def)

text \<open>
  C2. With a salt supplied, \<open>deriveKey\<close> does not touch the random generator: two calls
  with the same entropy string and the same salt, whatever the state of the generator,
  give the same result, and that result is the HKDF output for the decoded entropy,
  the salt and the fixed info string, together with the supplied salt itself.
\<close>

theorem deriveKey_deterministic:
  "fst (deriveKey W r1 entropyHex (Some s)) = fst (deriveKey W r2 entropyHex (Some s))
   \<and> fst (deriveKey W r1 entropyHex (Some s)) =
       Inr (hkdf_sha256 W (hexToBytes entropyHex) s HKDF_INFO, s)
   \<and> snd (deriveKey W r1 entropyHex (Some s)) = r1"
  by (simp add: deriveKey_result)

theorem deriveKey_deterministic_witness:
  "fst (deriveKey standin_webcrypto (\<lambda>i. of_nat i) ''0a0b0c0d'' (Some [1, 2, 3])) =
     Inr ([10, 11, 12, 13, 1, 2, 3, 81, 82, 78, 71, 45, 83, 101, 99, 117, 114,
           101, 67, 111, 109, 109, 115, 45, 118, 49, 0, 0, 0, 0, 0, 0], [1, 2, 3])
   \<and> fst (deriveKey standin_webcrypto (\<lambda>i. 7) ''0a0b0c0d'' (Some [1, 2, 3])) =
     Inr ([10, 11, 12, 13, 1, 2, 3, 81, 82, 78, 71, 45, 83, 101, 99, 117, 114,
           101, 67, 111, 109, 109, 115, 45, 118, 49, 0, 0, 0, 0, 0, 0], [1, 2, 3])"
proof -
  have one: "fst (deriveKey standin_webcrypto (\<lambda>i. of_nat i) ''0a0b0c0d'' (Some [1, 2, 3])) =
     Inr ([10, 11, 12, 13, 1, 2, 3, 81, 82, 78, 71, 45, 83, 101, 99, 117, 114,
           101, 67, 111, 109, 109, 115, 45, 118, 49, 0, 0, 0, 0, 0, 0], [1, 2, 3])"
    by code_simp
  have same: "fst (deriveKey standin_webcrypto (\<lambda>i. of_nat i) ''0a0b0c0d'' (Some [1, 2, 3])) =
      fst (deriveKey standin_webcrypto (\<lambda>i. 7) ''0a0b0c0d'' (Some [1, 2, 3]))"
    using deriveKey_deterministic [of standin_webcrypto "\<lambda>i. of_nat i" "''0a0b0c0d''"
        "[1, 2, 3]" "\<lambda>i. 7"]
    by (rule conjunct1)
  show ?thesis
    unfolding same [symmetric] one by simp
qed

text \<open>
  C5 (as amended). \<open>deriveKey\<close> checks no length: for an entropy string of any length
  it returns a key, derived from the \<open>length div 2\<close> bytes that \<open>hexToBytes\<close> makes of
  the string, and never an error.
\<close>

theorem deriveKey_any_length:
  "fst (deriveKey W r entropyHex salt) =
     Inr (hkdf_sha256 W (hexToBytes entropyHex)
            (case salt of Some s \<Rightarrow> s | None \<Rightarrow> map r [0..<32]) HKDF_INFO,
          (case salt of Some s \<Rightarrow> s | None \<Rightarrow> map r [0..<32]))
   \<and> length (hexToBytes entropyHex) = length entropyHex div 2"
  by (simp add: deriveKey_result length_hexToBytes)

text \<open>Four bytes of entropy: a key comes back, not an error.\<close>

theorem deriveKey_short_entropy_counterexample:
  "length (hexToBytes ''0a0b0c0d'') = 4
   \<and> fst (deriveKey standin_webcrypto (\<lambda>i. of_nat i) ''0a0b0c0d'' None) =
     Inr ([10, 11, 12, 13, 0, 1, 2, 3, 4, 5, 6, 7, 8, 9, 10, 11, 12, 13, 14, 15, 16, 17, 18, 19,
           20, 21, 22, 23, 24, 25, 26, 27],
          [0, 1, 2, 3, 4, 5, 6, 7, 8, 9, 10, 11, 12, 13, 14, 15, 16, 17, 18, 19, 20, 21, 22, 23,
           24, 25, 26, 27, 28, 29, 30, 31])"
  by code_simp

theorem deriveKey_any_length_witness:
  "fst (deriveKey standin_webcrypto (\<lambda>i. of_nat i) ''0a0b0'' (Some [9])) =
     Inr ([10, 11, 9, 81, 82, 78, 71, 45, 83, 101, 99, 117, 114,
           101, 67, 111, 109, 109, 115, 45, 118, 49, 0, 0, 0, 0, 0, 0, 0, 0, 0, 0], [9])
   \<and> length (hexToBytes ''0a0b0'') = 2"
proof -
  have key: "hkdf_sha256 standin_webcrypto (hexToBytes ''0a0b0'') [9] HKDF_INFO =
      [10, 11, 9, 81, 82, 78, 71, 45, 83, 101, 99, 117, 114,
       101, 67, 111, 109, 109, 115, 45, 118, 49, 0, 0, 0, 0, 0, 0, 0, 0, 0, 0]"
    by code_simp
  show ?thesis
    using deriveKey_any_length [of standin_webcrypto "\<lambda>i. of_nat i" "''0a0b0''" "Some [9]"]
    by (simp add: key)
qed

section \<open>Initialisation vectors\<close>


lemma map_shift: "map (\<lambda>i. r (i + n)) [0..<k] = map r [n..<n + k]"
  by (induction k) (simp_all add: add.commute)


lemma bytesToBase64_cases:
  "bytesToBase64 max_args bytes =
     (if length bytes \<le> max_args then Inr (btoa (fromCharCode bytes)) else Inl RangeError)"
  by (simp add: bytesToBase64_def)

text \<open>
  What one encryption does with the generator and the cipher: the first 32 bytes of the
  stream are the salt, the next 12 the IV, and the cipher is called with the key derived
  under that salt and with that IV. The promise is rejected only by the Base64 encoding
  of a field longer than the engine's argument limit.
\<close>

lemma encryptMessage_result:
  "encryptMessage W max_args r plaintext entropyHex =
     (if length (aes_gcm_encrypt W
              (hkdf_sha256 W (hexToBytes entropyHex) (map r [0..<32]) HKDF_INFO)
              (map r [32..<44]) (TextEncoder_encode plaintext)) \<le> max_args \<and> 32 \<le> max_args
      then Inr \<lparr>ciphertext_b64 = btoa (fromCharCode
              (aes_gcm_encrypt W (hkdf_sha256 W (hexToBytes entropyHex) (map r [0..<32]) HKDF_INFO)
                 (map r [32..<44]) (TextEncoder_encode plaintext))),
            iv_b64 = btoa (fromCharCode (map r [32..<44])),
            salt_b64 = btoa (fromCharCode (map r [0..<32]))\<rparr>
      else Inl RangeError,
      (\<lambda>i. r (i + 44)))"
proof -
  have "map (\<lambda>i. r (i + 32)) [0..<12] = map r [32..<44]"
    using map_shift [of r 32 12] by simp
  then show ?thesis
    by (simp add: encryptMessage_def deriveKey_result getRandomValues_def
        bytesToBase64_cases add.assoc Let_def)
qed

lemma encryptFile_result:
  "encryptFile W max_args r file entropyHex =
     (if 32 \<le> max_args
      then Inr \<lparr>encryptedBlob =
              aes_gcm_encrypt W (hkdf_sha256 W (hexToBytes entropyHex) (map r [0..<32]) HKDF_INFO)
                 (map r [32..<44]) file,
            file_iv = btoa (fromCharCode (map r [32..<44])),
            file_salt = btoa (fromCharCode (map r [0..<32]))\<rparr>
      else Inl RangeError,
      (\<lambda>i. r (i + 44)))"
proof -
  have "map (\<lambda>i. r (i + 32)) [0..<12] = map r [32..<44]"
    using map_shift [of r 32 12] by simp
  then show ?thesis
    by (simp add: encryptFile_def deriveKey_result getRandomValues_def
        bytesToBase64_cases add.assoc Let_def)
qed

lemmas b64_enc_defs = fromCharCode_def Let_def b64_char_def b64_alphabet_def

lemmas parse_defs =
  hexToBytes_def parseInt16_def js_whitespace_def is_hex_digit_def hex_value_def toUint8_def
  Let_def upt_rec

lemmas standin_defs = standin_webcrypto_def standin_tag_def HKDF_INFO_def

lemmas text_defs =
  TextEncoder_encode_def TextDecoder_decode_def is_lead_def is_trail_def utf8_bytes_def
  utf8_step_def utf8_lead_def utf8_init_def strip_bom_def code_units_def



section \<open>Decrypting what was encrypted\<close>

lemma decryptMessage_envelope:
  assumes "\<forall>key iv plain. aes_gcm_decrypt W key iv (aes_gcm_encrypt W key iv plain) = Some plain"
    and "fst (encryptMessage W max_args r plaintext entropyHex) = Inr env"
  shows "fst (decryptMessage W r' (ciphertext_b64 env) (iv_b64 env) (salt_b64 env) entropyHex) =
     Inr (TextDecoder_decode (TextEncoder_encode plaintext))"
proof -
  have env: "env = \<lparr>ciphertext_b64 = btoa (fromCharCode
              (aes_gcm_encrypt W (hkdf_sha256 W (hexToBytes entropyHex) (map r [0..<32]) HKDF_INFO)
                 (map r [32..<44]) (TextEncoder_encode plaintext))),
            iv_b64 = btoa (fromCharCode (map r [32..<44])),
            salt_b64 = btoa (fromCharCode (map r [0..<32]))\<rparr>"
    using assms(2) by (simp add: encryptMessage_result split: if_splits)
  show ?thesis
    unfolding env using assms(1)
    by (simp add: decryptMessage_def atob_bytes deriveKey_result)
qed

lemma decryptFile_encrypted:
  assumes "\<forall>key iv plain. aes_gcm_decrypt W key iv (aes_gcm_encrypt W key iv plain) = Some plain"
    and "fst (encryptFile W max_args r file entropyHex) = Inr enc"
  shows "fst (decryptFile W r' (encryptedBlob enc) (file_iv enc) (file_salt enc) entropyHex) =
     Inr file"
proof -
  have enc: "enc = \<lparr>encryptedBlob =
              aes_gcm_encrypt W (hkdf_sha256 W (hexToBytes entropyHex) (map r [0..<32]) HKDF_INFO)
                 (map r [32..<44]) file,
            file_iv = btoa (fromCharCode (map r [32..<44])),
            file_salt = btoa (fromCharCode (map r [0..<32]))\<rparr>"
    using assms(2) by (simp add: encryptFile_result split: if_splits)
  show ?thesis
    unfolding enc using assms(1)
    by (simp add: decryptFile_def atob_bytes deriveKey_result)
qed

lemma standin_roundtrip:
  "aes_gcm_decrypt standin_webcrypto key iv (aes_gcm_encrypt standin_webcrypto key iv plain)
     = Some plain"
proof -
  have "length (standin_tag key iv) = 16"
    by (simp add: standin_tag_def)
  then show ?thesis
    by (simp add: standin_webcrypto_def)
qed

text \<open>
  C1 (as amended). Let the platform's cipher decrypt what it encrypted, and let the
  ciphertext of the message, and 32, be no more than the number of arguments the engine
  takes in a call. Then, for every entropy string, \<open>encryptMessage\<close> returns an envelope,
  and \<open>decryptMessage\<close> on its three fields with the same entropy string returns the
  UTF-8 decoding of the UTF-8 encoding of the plaintext. That is the plaintext itself
  whenever the plaintext is well formed (no surrogate outside a pair) and does not
  begin with U+FEFF.
\<close>

theorem message_roundtrip:
  assumes "\<forall>key iv plain. aes_gcm_decrypt W key iv (aes_gcm_encrypt W key iv plain) = Some plain"
    and "32 \<le> max_args"
    and "length (aes_gcm_encrypt W
            (hkdf_sha256 W (hexToBytes entropyHex) (map r [0..<32]) HKDF_INFO)
            (map r [32..<44]) (TextEncoder_encode plaintext)) \<le> max_args"
  shows "\<exists>env. fst (encryptMessage W max_args r plaintext entropyHex) = Inr env
    \<and> fst (decryptMessage W r' (ciphertext_b64 env) (iv_b64 env) (salt_b64 env) entropyHex) =
        Inr (TextDecoder_decode (TextEncoder_encode plaintext))
    \<and> (isWellFormed plaintext \<and> take 1 plaintext \<noteq> [0xFEFF] \<longrightarrow>
        fst (decryptMessage W r' (ciphertext_b64 env) (iv_b64 env) (salt_b64 env) entropyHex) =
        Inr plaintext)"
proof -
  obtain env where env: "fst (encryptMessage W max_args r plaintext entropyHex) = Inr env"
    using assms(2,3) by (simp add: encryptMessage_result)
  have dec: "fst (decryptMessage W r' (ciphertext_b64 env) (iv_b64 env) (salt_b64 env) entropyHex) =
        Inr (TextDecoder_decode (TextEncoder_encode plaintext))"
    using assms(1) env by (rule decryptMessage_envelope)
  have "isWellFormed plaintext \<and> take 1 plaintext \<noteq> [0xFEFF] \<longrightarrow>
      TextDecoder_decode (TextEncoder_encode plaintext) = plaintext"
    using text_roundtrip by blast
  then show ?thesis using env dec by auto
qed

text \<open>
  The plaintext of one unpaired surrogate, U+D800: encrypted and decrypted with the
  same entropy, it comes back as U+FFFD.
\<close>

theorem lone_surrogate_counterexample:
  "fst (encryptMessage standin_webcrypto 65535 (\<lambda>i. of_nat i) [0xD800]
      ''000102030405060708090a0b0c0d0e0f101112131415161718191a1b1c1d1e1f'') =
     Inr \<lparr>ciphertext_b64 = ''77+9ICEiIyQlJicoKSorAAECAw=='', iv_b64 = ''ICEiIyQlJicoKSor'',
          salt_b64 = ''AAECAwQFBgcICQoLDA0ODxAREhMUFRYXGBkaGxwdHh8=''\<rparr>
   \<and> fst (decryptMessage standin_webcrypto (\<lambda>i. of_nat i)
      ''77+9ICEiIyQlJicoKSorAAECAw=='' ''ICEiIyQlJicoKSor''
      ''AAECAwQFBgcICQoLDA0ODxAREhMUFRYXGBkaGxwdHh8=''
      ''000102030405060708090a0b0c0d0e0f101112131415161718191a1b1c1d1e1f'') = Inr [0xFFFD]"
proof -
  have run: "fst (encryptMessage standin_webcrypto 65535 (\<lambda>i. of_nat i) [0xD800]
      ''000102030405060708090a0b0c0d0e0f101112131415161718191a1b1c1d1e1f'') =
     Inr \<lparr>ciphertext_b64 = ''77+9ICEiIyQlJicoKSorAAECAw=='', iv_b64 = ''ICEiIyQlJicoKSor'',
          salt_b64 = ''AAECAwQFBgcICQoLDA0ODxAREhMUFRYXGBkaGxwdHh8=''\<rparr>"
    by (simp add: encryptMessage_result standin_defs text_defs b64_enc_defs parse_defs)
  have garbled: "TextDecoder_decode (TextEncoder_encode [0xD800]) = [0xFFFD]"
    by (simp add: text_defs)
  have aead: "\<forall>key iv plain. aes_gcm_decrypt standin_webcrypto key iv
      (aes_gcm_encrypt standin_webcrypto key iv plain) = Some plain"
    by (simp add: standin_roundtrip)
  from decryptMessage_envelope [OF aead run, of "\<lambda>i. of_nat i"] garbled run
  show ?thesis by simp
qed

theorem message_roundtrip_witness:
  "fst (encryptMessage standin_webcrypto 65535 (\<lambda>i. of_nat i) [0x48, 0x69]
      ''000102030405060708090a0b0c0d0e0f101112131415161718191a1b1c1d1e1f'') =
     Inr \<lparr>ciphertext_b64 = ''SGkgISIjJCUmJygpKisAAQID'', iv_b64 = ''ICEiIyQlJicoKSor'',
          salt_b64 = ''AAECAwQFBgcICQoLDA0ODxAREhMUFRYXGBkaGxwdHh8=''\<rparr>
   \<and> fst (decryptMessage standin_webcrypto (\<lambda>i. 0)
      ''SGkgISIjJCUmJygpKisAAQID'' ''ICEiIyQlJicoKSor''
      ''AAECAwQFBgcICQoLDA0ODxAREhMUFRYXGBkaGxwdHh8=''
      ''000102030405060708090a0b0c0d0e0f101112131415161718191a1b1c1d1e1f'') = Inr [0x48, 0x69]"
proof -
  have run: "fst (encryptMessage standin_webcrypto 65535 (\<lambda>i. of_nat i) [0x48, 0x69]
      ''000102030405060708090a0b0c0d0e0f101112131415161718191a1b1c1d1e1f'') =
     Inr \<lparr>ciphertext_b64 = ''SGkgISIjJCUmJygpKisAAQID'', iv_b64 = ''ICEiIyQlJicoKSor'',
          salt_b64 = ''AAECAwQFBgcICQoLDA0ODxAREhMUFRYXGBkaGxwdHh8=''\<rparr>"
    by (simp add: encryptMessage_result standin_defs text_defs b64_enc_defs parse_defs)
  have wf: "isWellFormed [0x48, 0x69] \<and> take 1 [0x48, 0x69 :: 16 word] \<noteq> [0xFEFF]"
    by (simp add: is_lead_def is_trail_def)
  have aead: "\<forall>key iv plain. aes_gcm_decrypt standin_webcrypto key iv
      (aes_gcm_encrypt standin_webcrypto key iv plain) = Some plain"
    by (simp add: standin_roundtrip)
  have fits: "length (aes_gcm_encrypt standin_webcrypto
            (hkdf_sha256 standin_webcrypto
               (hexToBytes ''000102030405060708090a0b0c0d0e0f101112131415161718191a1b1c1d1e1f'')
               (map (\<lambda>i. of_nat i) [0..<32]) HKDF_INFO)
            (map (\<lambda>i. of_nat i) [32..<44]) (TextEncoder_encode [0x48, 0x69])) \<le> 65535"
    by (simp add: standin_defs text_defs)
  have lim: "(32 :: nat) \<le> 65535"
    by simp
  from message_roundtrip [OF aead lim fits, of "\<lambda>i. 0"]
  obtain env where env: "fst (encryptMessage standin_webcrypto 65535 (\<lambda>i. of_nat i) [0x48, 0x69]
      ''000102030405060708090a0b0c0d0e0f101112131415161718191a1b1c1d1e1f'') = Inr env"
    and dec: "isWellFormed [0x48, 0x69] \<and> take 1 [0x48, 0x69 :: 16 word] \<noteq> [0xFEFF] \<longrightarrow>
      fst (decryptMessage standin_webcrypto (\<lambda>i. 0) (ciphertext_b64 env) (iv_b64 env)
        (salt_b64 env)
        ''000102030405060708090a0b0c0d0e0f101112131415161718191a1b1c1d1e1f'') = Inr [0x48, 0x69]"
    by blast
  have "env = \<lparr>ciphertext_b64 = ''SGkgISIjJCUmJygpKisAAQID'', iv_b64 = ''ICEiIyQlJicoKSor'',
          salt_b64 = ''AAECAwQFBgcICQoLDA0ODxAREhMUFRYXGBkaGxwdHh8=''\<rparr>"
    using run env by simp
  then show ?thesis using run dec wf by simp
qed

end
